theory Spec2Isabelle
  imports
    Main
    "HOL-Library.AList"
    "HOL-Library.Char_ord"
    "HOL-Library.List_Lexorder"
    "HOL-Library.Product_Lexorder"
begin

section \<open>Data model of \<open>log_to_html.py\<close>\<close>

text \<open>
  The script reads two JSON objects that map a worker identifier to a block log.  A JSON
  object is a Python \<open>dict\<close>: an association list in insertion order whose keys are
  distinct.  The fields \<open>code\<close>, \<open>from\<close>, \<open>timestamp\<close>, \<open>type\<close> and \<open>payload\<close> are read
  with a plain subscript, the fields \<open>predecessors\<close>, \<open>successors\<close> and \<open>messages\<close> are
  tested with \<open>in\<close> first: the former are plain record fields, the latter are options.
\<close>

record message =
  from_w :: string
  timestamp :: int
  type_m :: string
  payload :: string

record block_log =
  code :: "string list"
  predecessors :: "string list option"
  successors :: "string list option"
  messages :: "message list option"

type_synonym block_logs = "(string \<times> block_log) list"

datatype py_error = IndexError | KeyError string | ValueError string

text \<open>
  The Airium builder is driven by nested \<open>with\<close> blocks and calls; the model records the
  element tree that these calls describe.  An element carries the keyword arguments of the
  call as they are written in the script.
\<close>

datatype html = Elem string "(string \<times> string) list" "html list" | Text string

text \<open>
  \<open>html_for_message\<close> returns a pair for an empty slot and a single string otherwise.
\<close>

datatype rendered = Single "html list" | Tuple "html list" string

section \<open>Python primitives\<close>

definition newline :: string where
  "newline = [char_of (10::nat)]"

fun join :: "string \<Rightarrow> string list \<Rightarrow> string" where
  "join sep [] = []"
| "join sep [x] = x"
| "join sep (x # y # ys) = x @ sep @ join sep (y # ys)"

definition is_digit :: "char \<Rightarrow> bool" where
  "is_digit c = (48 \<le> (of_char c :: nat) \<and> (of_char c :: nat) \<le> 57)"

definition digit_val :: "char \<Rightarrow> nat" where
  "digit_val c = (of_char c :: nat) - 48"

definition is_space :: "char \<Rightarrow> bool" where
  "is_space c = (let n = (of_char c :: nat) in (9 \<le> n \<and> n \<le> 13) \<or> n = 32)"

definition strip :: "string \<Rightarrow> string" where
  "strip s = rev (dropWhile is_space (rev (dropWhile is_space s)))"

text \<open>
  The digits of a decimal literal after its first digit: single underscores may stand
  between two digits.
\<close>

fun digits_value :: "nat \<Rightarrow> string \<Rightarrow> nat option" where
  "digits_value acc [] = Some acc"
| "digits_value acc [c] = (if is_digit c then Some (10 * acc + digit_val c) else None)"
| "digits_value acc (c # d # cs) =
     (if c = CHR ''_'' then
        (if is_digit d then digits_value (10 * acc + digit_val d) cs else None)
      else if is_digit c then digits_value (10 * acc + digit_val c) (d # cs)
      else None)"

definition unsigned_value :: "string \<Rightarrow> nat option" where
  "unsigned_value s =
     (case s of [] \<Rightarrow> None
      | d # ds \<Rightarrow> if is_digit d then digits_value (digit_val d) ds else None)"

text \<open>
  \<open>int(s)\<close> on an ASCII string: surrounding blanks (tab, line feed, vertical tab, form
  feed, carriage return and space), an optional sign, decimal digits.  \<open>None\<close> stands for
  the \<open>ValueError\<close> that \<open>int\<close> raises.
\<close>

definition py_int :: "string \<Rightarrow> int option" where
  "py_int s =
     (case strip s of [] \<Rightarrow> None
      | c # cs \<Rightarrow>
          if c = CHR ''-'' then map_option (\<lambda>n. - int n) (unsigned_value cs)
          else if c = CHR ''+'' then map_option int (unsigned_value cs)
          else map_option int (unsigned_value (c # cs)))"

definition digit_char :: "nat \<Rightarrow> char" where
  "digit_char d = char_of (48 + d)"

fun str_nat :: "nat \<Rightarrow> string" where
  "str_nat n = (if n < 10 then [digit_char n] else str_nat (n div 10) @ [digit_char (n mod 10)])"

declare str_nat.simps [simp del]

definition str_int :: "int \<Rightarrow> string" where
  "str_int i = (if i < 0 then CHR ''-'' # str_nat (nat (- i)) else str_nat (nat i))"

section \<open>\<open>html_for_message\<close>\<close>

text \<open>
  Lines 47 to 67: the logical senders, the receivers and the arrow of a message, from the
  block log \<open>infos\<close> of its worker.
\<close>

definition classify :: "message \<Rightarrow> block_log \<Rightarrow> string list \<times> string list \<times> string" where
  "classify message infos =
     (let predecessors' = (case predecessors infos of None \<Rightarrow> [''none''] | Some ps \<Rightarrow> ps);
          successors' = (case successors infos of None \<Rightarrow> [''none''] | Some ss \<Rightarrow> ss);
          direction = type_m message
      in if direction = ''BLOCK_POSTCONDITION'' then (predecessors', successors', ''&darr;'')
         else if direction = ''ERROR_CONDITION'' then (successors', predecessors', ''&uarr;'')
         else if direction = ''ERROR_CONDITION_UNREACHABLE'' then (successors', [''all''], ''&uarr;'')
         else if direction = ''FOUND_RESULT'' then ([from_w message], [''all''], ''-'')
         else ([''all''], [''all''], ''-''))"

definition senders_of :: "string list \<times> string list \<times> string \<Rightarrow> string list" where
  "senders_of c = fst c"

definition receivers_of :: "string list \<times> string list \<times> string \<Rightarrow> string list" where
  "receivers_of c = fst (snd c)"

definition arrow_of :: "string list \<times> string list \<times> string \<Rightarrow> string" where
  "arrow_of c = snd (snd c)"

text \<open>Lines 76 to 79: the sender named in the summary.\<close>

definition sender_text :: "string list \<Rightarrow> string" where
  "sender_text senders = (if senders = [] then ''self'' else join '', '' senders)"

text \<open>Lines 69 to 83: the detail block of a populated cell.\<close>

definition message_div :: "message \<Rightarrow> block_log \<Rightarrow> html" where
  "message_div message infos =
     (let result = (if payload message = [] then ''no contents available'' else payload message);
          direction = type_m message;
          c = classify message infos;
          code' = join newline (filter (\<lambda>x. x \<noteq> []) (code infos))
      in Elem ''div'' [(''title'', code')]
           [Elem ''p'' []
              [Elem ''span'' [] [Text (arrow_of c)],
               Elem ''span'' []
                 [Text (''React to message from <strong>'' @ sender_text (senders_of c) @ ''</strong>:'')]],
            Elem ''p'' []
              [Text (''Calculated new '' @ direction @ '' message for <strong>''
                       @ join '', '' (receivers_of c) @ ''</strong>'')],
            Elem ''textarea'' [] [Text result]])"

text \<open>
  A matrix slot holds \<open>""\<close> or a message; \<open>None\<close> is the falsy value \<open>""\<close>.
\<close>

fun html_for_message :: "message option \<Rightarrow> block_logs \<Rightarrow> py_error + rendered" where
  "html_for_message None block_log = Inr (Tuple [Elem ''div'' [] [Text '''']] '''')"
| "html_for_message (Some message) block_log =
     (case map_of block_log (from_w message) of
        None \<Rightarrow> Inl (KeyError (from_w message))
      | Some infos \<Rightarrow> Inr (Single [message_div message infos]))"

section \<open>\<open>html_dict_to_html_table\<close>\<close>

text \<open>The sort key \<open>lambda x: int(x[1::])\<close> of line 91.\<close>

definition suffix_key :: "string \<Rightarrow> int option" where
  "suffix_key x = py_int (drop 1 x)"

text \<open>
  \<open>sorted\<close> computes the key of every element first, in order, and then sorts stably.
\<close>

fun keyed :: "string list \<Rightarrow> py_error + (int \<times> string) list" where
  "keyed [] = Inr []"
| "keyed (k # ks) =
     (case suffix_key k of
        None \<Rightarrow> Inl (ValueError (drop 1 k))
      | Some n \<Rightarrow> (case keyed ks of Inl e \<Rightarrow> Inl e | Inr r \<Rightarrow> Inr ((n, k) # r)))"

definition sorted_keys :: "block_logs \<Rightarrow> py_error + string list" where
  "sorted_keys block_logs =
     (case keyed (map fst block_logs) of
        Inl e \<Rightarrow> Inl e
      | Inr r \<Rightarrow> Inr (map snd (sort_key fst r)))"

text \<open>Lines 92 to 94: the column of every worker.\<close>

fun index_loop :: "(nat \<times> string) list \<Rightarrow> (string \<rightharpoonup> nat) \<Rightarrow> (string \<rightharpoonup> nat)" where
  "index_loop [] d = d"
| "index_loop (index # rest) d = index_loop rest (d(snd index \<mapsto> fst index))"

definition index_dict :: "string list \<Rightarrow> string \<rightharpoonup> nat" where
  "index_dict sk = index_loop (enumerate 0 sk) Map.empty"

type_synonym matrix = "(int \<times> message option list) list"

text \<open>
  Lines 96 and 97, one turn of the loop: \<open>setdefault\<close> finds the row of the relative
  timestamp or appends a fresh one, the subscript of \<open>index_dict\<close> raises for an unknown
  worker, the store into the row replaces what the slot held.
\<close>

definition place :: "(string \<rightharpoonup> nat) \<Rightarrow> nat \<Rightarrow> int \<Rightarrow> matrix \<Rightarrow> message \<Rightarrow> py_error + matrix" where
  "place idx width first_timestamp rows message =
     (let t = timestamp message - first_timestamp;
          row = (case map_of rows t of None \<Rightarrow> replicate width None | Some r \<Rightarrow> r)
      in case idx (from_w message) of
           None \<Rightarrow> Inl (KeyError (from_w message))
         | Some i \<Rightarrow>
             if i < length row then Inr (AList.update t (row[i := Some message]) rows)
             else Inl IndexError)"

fun place_all :: "(string \<rightharpoonup> nat) \<Rightarrow> nat \<Rightarrow> int \<Rightarrow> matrix \<Rightarrow> message list \<Rightarrow> py_error + matrix" where
  "place_all idx width first_timestamp rows [] = Inr rows"
| "place_all idx width first_timestamp rows (m # ms) =
     (case place idx width first_timestamp rows m of
        Inl e \<Rightarrow> Inl e
      | Inr rows' \<Rightarrow> place_all idx width first_timestamp rows' ms)"

text \<open>Lines 89 to 97: the sorted worker identifiers and the timeline matrix.\<close>

definition timeline_matrix :: "message list \<Rightarrow> block_logs \<Rightarrow> py_error + (string list \<times> matrix)" where
  "timeline_matrix all_messages block_logs =
     (case all_messages of
        [] \<Rightarrow> Inl IndexError
      | m0 # _ \<Rightarrow>
          (case sorted_keys block_logs of
             Inl e \<Rightarrow> Inl e
           | Inr sk \<Rightarrow>
               (case place_all (index_dict sk) (length block_logs) (timestamp m0) [] all_messages of
                  Inl e \<Rightarrow> Inl e
                | Inr rows \<Rightarrow> Inr (sk, rows))))"

definition type_to_klass :: "string \<rightharpoonup> string" where
  "type_to_klass = map_of
     [(''BLOCK_POSTCONDITION'', ''precondition''),
      (''ERROR_CONDITION'', ''postcondition''),
      (''ERROR_CONDITION_UNREACHABLE'', ''postcondition'')]"

fun sequence :: "('e + 'a) list \<Rightarrow> 'e + 'a list" where
  "sequence [] = Inr []"
| "sequence (x # xs) =
     (case x of
        Inl e \<Rightarrow> Inl e
      | Inr v \<Rightarrow> (case sequence xs of Inl e \<Rightarrow> Inl e | Inr vs \<Rightarrow> Inr (v # vs)))"

text \<open>
  The text of a cell is the string that \<open>html_for_message\<close> returns; the table asks for
  populated slots only, so the pair is never passed on.
\<close>

fun text_of :: "rendered \<Rightarrow> html list" where
  "text_of (Single h) = h"
| "text_of (Tuple h s) = h @ [Text s]"

text \<open>Lines 116 to 121: one cell of a data row.\<close>

fun table_cell :: "block_logs \<Rightarrow> message option \<Rightarrow> py_error + html" where
  "table_cell block_logs None = Inr (Elem ''td'' [] [])"
| "table_cell block_logs (Some msg) =
     (let klass = (case type_to_klass (type_m msg) of Some k \<Rightarrow> k | None \<Rightarrow> ''normal'')
      in case html_for_message (Some msg) block_logs of
           Inl e \<Rightarrow> Inl e
         | Inr r \<Rightarrow> Inr (Elem ''td'' [(''klass'', klass)] (text_of r)))"

text \<open>Lines 112 to 121: one data row.\<close>

definition table_row :: "block_logs \<Rightarrow> int \<times> message option list \<Rightarrow> py_error + html" where
  "table_row block_logs r =
     (case sequence (map (table_cell block_logs) (snd r)) of
        Inl e \<Rightarrow> Inl e
      | Inr cells \<Rightarrow> Inr (Elem ''tr'' [] (Elem ''td'' [] [Text (str_int (fst r))] # cells)))"

definition header_row :: "string list \<Rightarrow> html" where
  "header_row sk =
     Elem ''tr'' [(''klass'', ''header_row'')] (map (\<lambda>key. Elem ''th'' [] [Text key]) (''time'' # sk))"

definition html_dict_to_html_table :: "message list \<Rightarrow> block_logs \<Rightarrow> py_error + html" where
  "html_dict_to_html_table all_messages block_logs =
     (case timeline_matrix all_messages block_logs of
        Inl e \<Rightarrow> Inl e
      | Inr (sk, rows) \<Rightarrow>
          (case sequence (map (table_row block_logs) rows) of
             Inl e \<Rightarrow> Inl e
           | Inr trs \<Rightarrow> Inr (Elem ''table'' [(''klass'', ''worker'')] (header_row sk # trs))))"

section \<open>\<open>visualize\<close>\<close>

text \<open>
  A \<open>networkx.DiGraph\<close>: the nodes with their attributes and the edges, both in insertion
  order.  \<open>add_node\<close> updates the attributes of a node that exists; \<open>add_edge\<close> first adds
  the end points that are missing, with no attribute, and keeps one edge per pair.
\<close>

record digraph =
  nodes :: "(string \<times> (string \<times> string) list) list"
  edges :: "(string \<times> string) list"

definition add_node :: "string \<Rightarrow> (string \<times> string) list \<Rightarrow> digraph \<Rightarrow> digraph" where
  "add_node n attrs g =
     (case map_of (nodes g) n of
        None \<Rightarrow> g\<lparr>nodes := nodes g @ [(n, attrs)]\<rparr>
      | Some old \<Rightarrow> g\<lparr>nodes := AList.update n (fold (\<lambda>(a, v). AList.update a v) attrs old) (nodes g)\<rparr>)"

definition add_edge :: "string \<Rightarrow> string \<Rightarrow> digraph \<Rightarrow> digraph" where
  "add_edge u v g =
     (let g1 = add_node u [] g; g2 = add_node v [] g1
      in if (u, v) \<in> set (edges g2) then g2 else g2\<lparr>edges := edges g2 @ [(u, v)]\<rparr>)"

text \<open>Lines 130 and 131.\<close>

definition node_label :: "string \<Rightarrow> block_log \<Rightarrow> string" where
  "node_label key info =
     (let code' = join newline (filter (\<lambda>c. c \<noteq> []) (code info))
      in if code' \<noteq> [] then key @ '':'' @ newline @ code' else key)"

definition add_block_node :: "string \<times> block_log \<Rightarrow> digraph \<Rightarrow> digraph" where
  "add_block_node kv g =
     add_node (fst kv) [(''shape'', ''box''), (''label'', node_label (fst kv) (snd kv))] g"

definition add_block_edges :: "string \<times> block_log \<Rightarrow> digraph \<Rightarrow> digraph" where
  "add_block_edges kv g =
     (case successors (snd kv) of
        None \<Rightarrow> g
      | Some ss \<Rightarrow> fold (\<lambda>successor. add_edge (fst kv) successor) ss g)"

text \<open>Lines 127 to 136: the graph that is written to \<open>graph.dot\<close>.\<close>

definition visualize :: "block_logs \<Rightarrow> digraph" where
  "visualize block_logs =
     fold add_block_edges block_logs (fold add_block_node block_logs \<lparr>nodes = [], edges = []\<rparr>)"

section \<open>\<open>main\<close>\<close>

text \<open>
  \<open>main\<close> gets the parsed contents of \<open>block_analysis.json\<close> and of \<open>blocks.json\<close>; reading
  the files and the templates is taken to succeed.  Its effects are the report that is
  written (the template with the table in it, given here by the table), the graph that is
  written and the browser that is opened; an exception leaves the process with a status
  that is not zero.
\<close>

record outcome =
  report :: "html option"
  graph :: "digraph option"
  browser_opened :: bool

definition collect_messages :: "block_logs \<Rightarrow> message list" where
  "collect_messages block_logs =
     concat (map (\<lambda>kv. case messages (snd kv) of None \<Rightarrow> [] | Some ms \<Rightarrow> ms) block_logs)"

text \<open>Line 155: a stable sort by the pair of timestamp and identifier suffix.\<close>

definition sort_messages :: "message list \<Rightarrow> message list" where
  "sort_messages all_messages = sort_key (\<lambda>entry. (timestamp entry, drop 1 (from_w entry))) all_messages"

definition main :: "block_logs \<Rightarrow> block_logs \<Rightarrow> py_error + outcome" where
  "main block_logs summary =
     (let all_messages = collect_messages block_logs
      in if all_messages = [] then Inr \<lparr>report = None, graph = None, browser_opened = False\<rparr>
         else
           (case html_dict_to_html_table (sort_messages all_messages) block_logs of
              Inl e \<Rightarrow> Inl e
            | Inr table \<Rightarrow>
                Inr \<lparr>report = Some table, graph = Some (visualize summary), browser_opened = True\<rparr>))"

text \<open>\<open>sys.exit(main())\<close>: \<open>main\<close> returns \<open>None\<close>, which is status 0.\<close>

definition exit_status :: "py_error + outcome \<Rightarrow> nat" where
  "exit_status r = (case r of Inl e \<Rightarrow> 1 | Inr out \<Rightarrow> 0)"

section \<open>The scenario of two workers and one message\<close>

definition scenario_message :: message where
  "scenario_message =
     \<lparr>from_w = ''B0'', timestamp = 100, type_m = ''BLOCK_POSTCONDITION'', payload = ''x == 1''\<rparr>"

definition scenario_logs :: block_logs where
  "scenario_logs =
     [(''B0'', \<lparr>code = [''x = 1;''], predecessors = None, successors = Some [''B1''],
               messages = Some [scenario_message]\<rparr>),
      (''B1'', \<lparr>code = [], predecessors = Some [''B0''], successors = None, messages = None\<rparr>)]"

definition scenario_cell :: "string \<Rightarrow> html" where
  "scenario_cell sender =
     Elem ''td'' [(''klass'', ''precondition'')]
       [Elem ''div'' [(''title'', ''x = 1;'')]
          [Elem ''p'' []
             [Elem ''span'' [] [Text ''&darr;''],
              Elem ''span'' [] [Text (''React to message from <strong>'' @ sender @ ''</strong>:'')]],
           Elem ''p'' [] [Text ''Calculated new BLOCK_POSTCONDITION message for <strong>B1</strong>''],
           Elem ''textarea'' [] [Text ''x == 1'']]]"

definition scenario_table :: "string \<Rightarrow> html" where
  "scenario_table sender =
     Elem ''table'' [(''klass'', ''worker'')]
       [Elem ''tr'' [(''klass'', ''header_row'')]
          [Elem ''th'' [] [Text ''time''], Elem ''th'' [] [Text ''B0''], Elem ''th'' [] [Text ''B1'']],
        Elem ''tr'' [] [Elem ''td'' [] [Text ''0''], scenario_cell sender, Elem ''td'' [] []]]"

section \<open>Observations on the timeline matrix\<close>

text \<open>
  The content of the slot in the row of relative timestamp \<open>t\<close> and column \<open>i\<close>; a row that
  does not exist has no content.
\<close>

definition slot :: "matrix \<Rightarrow> int \<Rightarrow> nat \<Rightarrow> message option" where
  "slot rows t i =
     (case map_of rows t of None \<Rightarrow> None | Some row \<Rightarrow> if i < length row then row ! i else None)"

text \<open>The last element of a list, in iteration order, that satisfies \<open>P\<close>.\<close>

definition latest :: "('a \<Rightarrow> bool) \<Rightarrow> 'a list \<Rightarrow> 'a option" where
  "latest P xs = (case filter P xs of [] \<Rightarrow> None | y # ys \<Rightarrow> Some (last (y # ys)))"

text \<open>
  The invariant of the loop of lines 95 to 97: the row keys are distinct, every row has the
  width \<open>w\<close>, and every message in a slot satisfies \<open>Q\<close>.
\<close>

definition rows_ok :: "nat \<Rightarrow> (message \<Rightarrow> bool) \<Rightarrow> matrix \<Rightarrow> bool" where
  "rows_ok w Q rows \<longleftrightarrow>
     distinct (map fst rows) \<and> (\<forall>p \<in> set rows. length (snd p) = w \<and> (\<forall>m. Some m \<in> set (snd p) \<longrightarrow> Q m))"

section \<open>A log with two messages of one worker at one timestamp\<close>

definition collision_messages :: "message list" where
  "collision_messages =
     [\<lparr>from_w = ''B1'', timestamp = 10, type_m = ''BLOCK_POSTCONDITION'', payload = ''first''\<rparr>,
      \<lparr>from_w = ''B0'', timestamp = 10, type_m = ''FOUND_RESULT'', payload = []\<rparr>,
      \<lparr>from_w = ''B1'', timestamp = 10, type_m = ''ERROR_CONDITION'', payload = ''second''\<rparr>,
      \<lparr>from_w = ''B0'', timestamp = 12, type_m = ''ERROR_CONDITION'', payload = ''third''\<rparr>]"

definition collision_logs :: block_logs where
  "collision_logs =
     [(''B1'', \<lparr>code = [], predecessors = Some [''B0''], successors = None, messages = None\<rparr>),
      (''B0'', \<lparr>code = [''x = 1;''], predecessors = None, successors = Some [''B1''], messages = None\<rparr>)]"

section \<open>Further concrete logs\<close>

definition unsorted_messages :: "message list" where
  "unsorted_messages =
     [\<lparr>from_w = ''B1'', timestamp = 12, type_m = ''ERROR_CONDITION'', payload = ''late''\<rparr>,
      \<lparr>from_w = ''B0'', timestamp = 11, type_m = ''FOUND_RESULT'', payload = []\<rparr>,
      \<lparr>from_w = ''B1'', timestamp = 10, type_m = ''BLOCK_POSTCONDITION'', payload = ''early''\<rparr>]"

definition one_worker_logs :: block_logs where
  "one_worker_logs =
     [(''B0'', \<lparr>code = [''x = 1;''], predecessors = None, successors = Some [''B1''],
               messages = Some [scenario_message]\<rparr>)]"

section \<open>Observations on the topology graph\<close>

text \<open>The pairs of a worker and one of its declared successors, in the order of the log.\<close>

definition declared_edges :: "block_logs \<Rightarrow> (string \<times> string) list" where
  "declared_edges block_logs =
     concat (map (\<lambda>kv. case successors (snd kv) of None \<Rightarrow> [] | Some ss \<Rightarrow> map (Pair (fst kv)) ss) block_logs)"

text \<open>
  The node of a worker: the identifier, followed by a colon, a line break and the joined
  non-empty code lines, or the bare identifier when there is no non-empty code line.
\<close>

definition block_node :: "string \<times> block_log \<Rightarrow> string \<times> (string \<times> string) list" where
  "block_node kv =
     (fst kv,
      [(''shape'', ''box''),
       (''label'',
        if filter (\<lambda>c. c \<noteq> []) (code (snd kv)) = [] then fst kv
        else fst kv @ '':'' @ newline @ join newline (filter (\<lambda>c. c \<noteq> []) (code (snd kv))))])"

text \<open>
  The graph \<open>g'\<close> has the nodes of \<open>g\<close> and then further nodes without attributes, whose
  identifiers are new, pairwise different and in \<open>X\<close>.
\<close>

definition grows :: "digraph \<Rightarrow> digraph \<Rightarrow> string set \<Rightarrow> bool" where
  "grows g g' X \<longleftrightarrow>
     (\<exists>extra. nodes g' = nodes g @ extra \<and> (\<forall>n \<in> set extra. snd n = [] \<and> fst n \<in> X)
        \<and> distinct (map fst extra) \<and> fst ` set extra \<inter> fst ` set (nodes g) = {})"

definition graph_logs :: block_logs where
  "graph_logs =
     [(''B0'', \<lparr>code = [''x = 1;'', [], ''y = 2;''], predecessors = None,
               successors = Some [''B1'', ''B2'', ''B1''], messages = None\<rparr>),
      (''B1'', \<lparr>code = [[]], predecessors = Some [''B0''], successors = None, messages = None\<rparr>),
      (''B2'', \<lparr>code = [''z = 3;''], predecessors = Some [''B0''], successors = Some [''B0'', ''B7''],
               messages = None\<rparr>)]"

section \<open>Classification and cell rendering\<close>

text \<open>
  C9: for an empty matrix slot, \<open>html_for_message\<close> raises nothing and returns the pair of
  an empty \<open>div\<close> and the empty string.
\<close>

theorem html_for_message_empty:
  "html_for_message None block_log = Inr (Tuple [Elem ''div'' [] [Text '''']] '''')"
  by simp

text \<open>
  C2, as the script computes it: for a message of type \<open>BLOCK_POSTCONDITION\<close> the
  receivers are the successors of the sending worker, or the list \<open>["none"]\<close> when the
  worker has no field \<open>successors\<close>; the senders are its predecessors, or \<open>["none"]\<close> when it
  has no field \<open>predecessors\<close>; the arrow is the downward arrow.
\<close>

theorem postcondition_classification:
  assumes "type_m message = ''BLOCK_POSTCONDITION''"
  shows "receivers_of (classify message infos) =
           (case successors infos of None \<Rightarrow> [''none''] | Some ss \<Rightarrow> ss)
         \<and> senders_of (classify message infos) =
           (case predecessors infos of None \<Rightarrow> [''none''] | Some ps \<Rightarrow> ps)
         \<and> arrow_of (classify message infos) = ''&darr;''"
  using assms by (simp add: classify_def receivers_of_def senders_of_def arrow_of_def)

theorem postcondition_classification_witness:
  "type_m \<lparr>from_w = ''B2'', timestamp = 3, type_m = ''BLOCK_POSTCONDITION'', payload = []\<rparr>
      = ''BLOCK_POSTCONDITION''
   \<and> receivers_of (classify
        \<lparr>from_w = ''B2'', timestamp = 3, type_m = ''BLOCK_POSTCONDITION'', payload = []\<rparr>
        \<lparr>code = [], predecessors = Some [''B1''], successors = Some [''B3'', ''B4''], messages = None\<rparr>)
      = [''B3'', ''B4'']
   \<and> senders_of (classify
        \<lparr>from_w = ''B2'', timestamp = 3, type_m = ''BLOCK_POSTCONDITION'', payload = []\<rparr>
        \<lparr>code = [], predecessors = Some [''B1''], successors = Some [''B3'', ''B4''], messages = None\<rparr>)
      = [''B1'']"
  using postcondition_classification [of
      "\<lparr>from_w = ''B2'', timestamp = 3, type_m = ''BLOCK_POSTCONDITION'', payload = []\<rparr>"
      "\<lparr>code = [], predecessors = Some [''B1''], successors = Some [''B3'', ''B4''], messages = None\<rparr>"]
  by simp

text \<open>
  The claim C2 as it is written asks for the receivers \<open>{"all"}\<close> when the worker declares
  no successors; the script yields \<open>["none"]\<close> there.
\<close>

theorem postcondition_receivers_counterexample:
  "receivers_of (classify
      \<lparr>from_w = ''B0'', timestamp = 100, type_m = ''BLOCK_POSTCONDITION'', payload = []\<rparr>
      \<lparr>code = [], predecessors = None, successors = None, messages = None\<rparr>) = [''none'']
   \<and> receivers_of (classify
      \<lparr>from_w = ''B0'', timestamp = 100, type_m = ''BLOCK_POSTCONDITION'', payload = []\<rparr>
      \<lparr>code = [], predecessors = None, successors = None, messages = None\<rparr>) \<noteq> [''all'']"
  by (simp add: classify_def receivers_of_def)

text \<open>
  C10: when the senders computed for a populated message are the empty list, the summary
  of the cell names the sender \<open>self\<close>.
\<close>

theorem empty_senders_render_self:
  assumes "map_of block_log (from_w message) = Some infos"
    and "senders_of (classify message infos) = []"
  shows "html_for_message (Some message) block_log =
           Inr (Single [Elem ''div'' [(''title'', join newline (filter (\<lambda>x. x \<noteq> []) (code infos)))]
             [Elem ''p'' []
                [Elem ''span'' [] [Text (arrow_of (classify message infos))],
                 Elem ''span'' [] [Text ''React to message from <strong>self</strong>:'']],
              Elem ''p'' []
                [Text (''Calculated new '' @ type_m message @ '' message for <strong>''
                         @ join '', '' (receivers_of (classify message infos)) @ ''</strong>'')],
              Elem ''textarea'' []
                [Text (if payload message = [] then ''no contents available'' else payload message)]]])"
  using assms by (simp add: message_div_def sender_text_def Let_def)

theorem empty_senders_render_self_witness:
  "map_of [(''B3'', \<lparr>code = [''y = 2;''], predecessors = Some [], successors = Some [''B4''], messages = None\<rparr>)]
      (from_w \<lparr>from_w = ''B3'', timestamp = 7, type_m = ''BLOCK_POSTCONDITION'', payload = ''y == 2''\<rparr>)
     = Some \<lparr>code = [''y = 2;''], predecessors = Some [], successors = Some [''B4''], messages = None\<rparr>
   \<and> senders_of (classify \<lparr>from_w = ''B3'', timestamp = 7, type_m = ''BLOCK_POSTCONDITION'', payload = ''y == 2''\<rparr>
        \<lparr>code = [''y = 2;''], predecessors = Some [], successors = Some [''B4''], messages = None\<rparr>) = []
   \<and> html_for_message (Some \<lparr>from_w = ''B3'', timestamp = 7, type_m = ''BLOCK_POSTCONDITION'', payload = ''y == 2''\<rparr>)
        [(''B3'', \<lparr>code = [''y = 2;''], predecessors = Some [], successors = Some [''B4''], messages = None\<rparr>)] =
           Inr (Single [Elem ''div'' [(''title'', ''y = 2;'')]
             [Elem ''p'' []
                [Elem ''span'' [] [Text ''&darr;''],
                 Elem ''span'' [] [Text ''React to message from <strong>self</strong>:'']],
              Elem ''p'' [] [Text ''Calculated new BLOCK_POSTCONDITION message for <strong>B4</strong>''],
              Elem ''textarea'' [] [Text ''y == 2'']]])"
  using empty_senders_render_self [of
      "[(''B3'', \<lparr>code = [''y = 2;''], predecessors = Some [], successors = Some [''B4''], messages = None\<rparr>)]"
      "\<lparr>from_w = ''B3'', timestamp = 7, type_m = ''BLOCK_POSTCONDITION'', payload = ''y == 2''\<rparr>"
      "\<lparr>code = [''y = 2;''], predecessors = Some [], successors = Some [''B4''], messages = None\<rparr>"]
  by (simp add: classify_def senders_of_def receivers_of_def arrow_of_def)

section \<open>The scenario\<close>

text \<open>
  C3, as the script renders it: for the workers \<open>B0\<close> (successors \<open>B1\<close>, no predecessors
  declared) and \<open>B1\<close> (predecessors \<open>B0\<close>) and one \<open>BLOCK_POSTCONDITION\<close> message of \<open>B0\<close> at
  timestamp 100, the table has the single row of relative time 0, the cell of \<open>B0\<close> reads
  "React to message from none" and "Calculated new BLOCK_POSTCONDITION message for B1",
  the cell of \<open>B1\<close> is empty, and the graph has the two nodes and the single edge from
  \<open>B0\<close> to \<open>B1\<close>.
\<close>

theorem scenario_renders_none:
  "html_dict_to_html_table [scenario_message] scenario_logs = Inr (scenario_table ''none'')
   \<and> edges (visualize scenario_logs) = [(''B0'', ''B1'')]
   \<and> map fst (nodes (visualize scenario_logs)) = [''B0'', ''B1'']
   \<and> main scenario_logs scenario_logs =
       Inr \<lparr>report = Some (scenario_table ''none''), graph = Some (visualize scenario_logs),
            browser_opened = True\<rparr>"
  by code_simp

text \<open>
  The claim C3 as it is written names \<open>B0\<close> as the sender in the cell of \<open>B0\<close>; that table is
  not the one the script renders.
\<close>

theorem scenario_sender_counterexample:
  "html_dict_to_html_table [scenario_message] scenario_logs \<noteq> Inr (scenario_table ''B0'')"
  by code_simp

section \<open>The empty log\<close>

text \<open>
  C7: when no worker of the block-analysis log has a message, \<open>main\<close> renders nothing,
  writes no report and no graph, opens no browser and leaves with status 0.
\<close>

theorem empty_log_no_report:
  assumes "list_all (\<lambda>kv. messages (snd kv) = None \<or> messages (snd kv) = Some []) block_logs"
  shows "main block_logs summary = Inr \<lparr>report = None, graph = None, browser_opened = False\<rparr>
         \<and> exit_status (main block_logs summary) = 0"
proof -
  have "collect_messages block_logs = []"
    using assms unfolding collect_messages_def by (induction block_logs) auto
  then show ?thesis by (simp add: main_def exit_status_def)
qed

theorem empty_log_no_report_witness:
  "list_all (\<lambda>kv. messages (snd kv) = None \<or> messages (snd kv) = Some [])
      [(''B0'', \<lparr>code = [''x = 1;''], predecessors = None, successors = Some [''B1''], messages = Some []\<rparr>),
       (''B1'', \<lparr>code = [], predecessors = Some [''B0''], successors = None, messages = None\<rparr>)]
   \<and> main [(''B0'', \<lparr>code = [''x = 1;''], predecessors = None, successors = Some [''B1''], messages = Some []\<rparr>),
           (''B1'', \<lparr>code = [], predecessors = Some [''B0''], successors = None, messages = None\<rparr>)] []
      = Inr \<lparr>report = None, graph = None, browser_opened = False\<rparr>
   \<and> exit_status (main [(''B0'', \<lparr>code = [''x = 1;''], predecessors = None, successors = Some [''B1''], messages = Some []\<rparr>),
           (''B1'', \<lparr>code = [], predecessors = Some [''B0''], successors = None, messages = None\<rparr>)] []) = 0"
  using empty_log_no_report [of
      "[(''B0'', \<lparr>code = [''x = 1;''], predecessors = None, successors = Some [''B1''], messages = Some []\<rparr>),
        (''B1'', \<lparr>code = [], predecessors = Some [''B0''], successors = None, messages = None\<rparr>)]" "[]"]
  by (simp add: exit_status_def)

section \<open>Column order\<close>

text \<open>
  The blanks that \<open>int\<close> strips do not include the separator characters 28 to 31: an
  identifier with such a suffix makes line 91 raise.
\<close>

lemma py_int_separator:
  "py_int [char_of (28 :: nat), CHR ''7''] = None"
  "sorted_keys [(CHR ''B'' # [char_of (28 :: nat), CHR ''7''],
      \<lparr>code = [], predecessors = None, successors = None, messages = None\<rparr>)]
     = Inl (ValueError [char_of (28 :: nat), CHR ''7''])"
  "py_int '' 7'' = Some 7"
  by code_simp+

lemma keyed_Inr:
  "keyed ks = Inr r \<Longrightarrow> map snd r = ks \<and> list_all (\<lambda>p. suffix_key (snd p) = Some (fst p)) r"
  by (induction ks arbitrary: r) (auto split: option.splits sum.splits)

lemma keyed_total:
  "list_all (\<lambda>k. suffix_key k \<noteq> None) ks \<Longrightarrow> \<exists>r. keyed ks = Inr r"
  by (induction ks) (auto split: option.splits sum.splits)

lemma sorted_keys_Inr:
  assumes "sorted_keys block_logs = Inr sk"
  shows "set sk = fst ` set block_logs"
    and "length sk = length block_logs"
    and "distinct (map fst block_logs) \<Longrightarrow> distinct sk"
    and "\<exists>ns. map suffix_key sk = map Some ns \<and> sorted ns"
proof -
  from assms obtain r where r: "keyed (map fst block_logs) = Inr r"
    and sk: "sk = map snd (sort_key fst r)"
    by (auto simp: sorted_keys_def split: sum.splits)
  from keyed_Inr [OF r] have ks: "map snd r = map fst block_logs"
    and ok: "list_all (\<lambda>p. suffix_key (snd p) = Some (fst p)) r" by simp_all
  have "set sk = snd ` set r" by (simp add: sk)
  also have "\<dots> = set (map snd r)" by simp
  finally show "set sk = fst ` set block_logs" by (simp add: ks)
  have "length sk = length (map snd r)" by (simp add: sk)
  then show len: "length sk = length block_logs" by (simp add: ks)
  show "distinct sk" if "distinct (map fst block_logs)"
  proof -
    have "card (set sk) = length sk"
      using that \<open>set sk = fst ` set block_logs\<close> len distinct_card [of "map fst block_logs"] by simp
    then show ?thesis by (rule card_distinct)
  qed
  have "list_all (\<lambda>p. suffix_key (snd p) = Some (fst p)) (sort_key fst r)"
    using ok by (simp add: list_all_iff)
  then have "map suffix_key sk = map Some (map fst (sort_key fst r))"
    by (simp add: sk list_all_iff)
  moreover have "sorted (map fst (sort_key fst r))" by (rule sorted_sort_key)
  ultimately show "\<exists>ns. map suffix_key sk = map Some ns \<and> sorted ns" by blast
qed

lemma sorted_keys_total:
  "list_all (\<lambda>k. suffix_key k \<noteq> None) (map fst block_logs) \<Longrightarrow> \<exists>sk. sorted_keys block_logs = Inr sk"
  using keyed_total [of "map fst block_logs"] by (auto simp: sorted_keys_def)

lemma index_loop_dom:
  "dom (index_loop (enumerate n xs) d) = dom d \<union> set xs"
  by (induction xs arbitrary: n d) auto

lemma index_loop_Some:
  "index_loop (enumerate n xs) d k = Some i \<Longrightarrow>
     (k \<notin> set xs \<and> d k = Some i) \<or> (n \<le> i \<and> i < n + length xs \<and> xs ! (i - n) = k)"
proof (induction xs arbitrary: n d)
  case Nil
  then show ?case by simp
next
  case (Cons x xs)
  from Cons.prems have "index_loop (enumerate (Suc n) xs) (d(x \<mapsto> n)) k = Some i"
    by simp
  from Cons.IH [OF this] show ?case
    by (auto simp: nth_Cons' Suc_diff_le split: if_splits)
qed

lemma index_dict_dom: "dom (index_dict sk) = set sk"
  by (simp add: index_dict_def index_loop_dom)

lemma index_dict_Some: "index_dict sk k = Some i \<Longrightarrow> i < length sk \<and> sk ! i = k"
  using index_loop_Some [of 0 sk Map.empty k i] by (auto simp: index_dict_def)

section \<open>The loop that fills the matrix\<close>

lemma latest_Nil: "latest P [] = None"
  by (simp add: latest_def)

lemma latest_Cons:
  "latest P (x # xs) = (case latest P xs of Some y \<Rightarrow> Some y | None \<Rightarrow> if P x then Some x else None)"
  by (auto simp: latest_def split: list.splits)

lemma latest_Some: "latest P xs = Some y \<Longrightarrow> P y \<and> y \<in> set xs"
proof -
  assume a: "latest P xs = Some y"
  then have ne: "filter P xs \<noteq> []" and y: "y = last (filter P xs)"
    by (auto simp: latest_def split: list.splits)
  from ne have "last (filter P xs) \<in> set (filter P xs)" by (rule last_in_set)
  with y show ?thesis by simp
qed

lemma latest_None: "latest P xs = None \<longleftrightarrow> (\<forall>x \<in> set xs. \<not> P x)"
proof -
  have "latest P xs = None \<longleftrightarrow> filter P xs = []"
    by (simp add: latest_def split: list.splits)
  then show ?thesis by (simp add: filter_empty_conv)
qed

lemma set_alist_update: "set (AList.update k v al) \<subseteq> insert (k, v) (set al)"
  by (induction al) auto

lemma rows_ok_Nil: "rows_ok w Q []"
  by (simp add: rows_ok_def)

lemma current_row:
  assumes "rows_ok w Q rows"
  shows "length (case map_of rows t of None \<Rightarrow> replicate w None | Some r \<Rightarrow> r) = w"
    and "Some m \<in> set (case map_of rows t of None \<Rightarrow> replicate w None | Some r \<Rightarrow> r) \<Longrightarrow> Q m"
  using assms by (auto simp: rows_ok_def split: option.splits dest!: map_of_SomeD)

lemma place_Inr:
  assumes ok: "rows_ok w Q rows" and idx: "idx (from_w m) = Some j" and j: "j < w" and q: "Q m"
  shows "\<exists>rows'. place idx w f rows m = Inr rows' \<and> rows_ok w Q rows'
           \<and> map fst rows' = (if timestamp m - f \<in> set (map fst rows) then map fst rows
                               else map fst rows @ [timestamp m - f])
           \<and> (\<forall>t i. i < w \<longrightarrow> slot rows' t i =
                 (if t = timestamp m - f \<and> i = j then Some m else slot rows t i))"
proof -
  define t where "t = timestamp m - f"
  define row where "row = (case map_of rows t of None \<Rightarrow> replicate w None | Some r \<Rightarrow> r)"
  define rows' where "rows' = AList.update t (row[j := Some m]) rows"
  have len: "length row = w" and rq: "\<And>x. Some x \<in> set row \<Longrightarrow> Q x"
    using current_row [OF ok, where t = t] by (simp_all add: row_def)
  have p: "place idx w f rows m = Inr rows'"
    using idx j len by (simp add: place_def Let_def t_def [symmetric] row_def [symmetric] rows'_def)
  have keys: "map fst rows' = (if t \<in> set (map fst rows) then map fst rows else map fst rows @ [t])"
    by (simp add: rows'_def update_keys)
  have d: "distinct (map fst rows')"
    using ok by (simp add: rows'_def rows_ok_def distinct_update)
  have el: "length (snd p) = w \<and> (\<forall>x. Some x \<in> set (snd p) \<longrightarrow> Q x)" if "p \<in> set rows'" for p
  proof -
    from that set_alist_update [of t "row[j := Some m]" rows]
    have "p = (t, row[j := Some m]) \<or> p \<in> set rows" by (auto simp: rows'_def)
    then show ?thesis
    proof
      assume "p = (t, row[j := Some m])"
      moreover have "set (row[j := Some m]) \<subseteq> insert (Some m) (set row)"
        by (rule set_update_subset_insert)
      ultimately show ?thesis using len rq q by auto
    next
      assume "p \<in> set rows"
      with ok show ?thesis by (simp add: rows_ok_def)
    qed
  qed
  have sl: "slot rows' t' i = (if t' = t \<and> i = j then Some m else slot rows t' i)" if "i < w" for t' i
  proof (cases "t' = t")
    case True
    have "slot rows t i = row ! i"
      using that ok by (auto simp: slot_def row_def rows_ok_def split: option.splits dest!: map_of_SomeD)
    then show ?thesis
      using True that len by (simp add: slot_def rows'_def update_conv')
  next
    case False
    then show ?thesis by (simp add: slot_def rows'_def update_conv')
  qed
  show ?thesis
    using p keys d el sl unfolding rows_ok_def t_def by blast
qed

lemma place_all_Inr:
  assumes "rows_ok w Q rows"
    and "\<forall>m \<in> set ms. Q m \<and> (\<exists>j. idx (from_w m) = Some j \<and> j < w)"
  shows "\<exists>rows'. place_all idx w f rows ms = Inr rows' \<and> rows_ok w Q rows'
           \<and> set (map fst rows') = set (map fst rows) \<union> (\<lambda>m. timestamp m - f) ` set ms
           \<and> (\<forall>t i. i < w \<longrightarrow> slot rows' t i =
                 (case latest (\<lambda>m. timestamp m - f = t \<and> idx (from_w m) = Some i) ms of
                    None \<Rightarrow> slot rows t i | Some m \<Rightarrow> Some m))"
  using assms
proof (induction ms arbitrary: rows)
  case Nil
  then show ?case by (simp add: latest_Nil)
next
  case (Cons m ms)
  from Cons.prems obtain j where j: "idx (from_w m) = Some j" "j < w" and q: "Q m" by auto
  from place_Inr [where Q = Q and idx = idx and m = m and f = f, OF Cons.prems(1) j q] obtain rows1 where
    p: "place idx w f rows m = Inr rows1" and ok1: "rows_ok w Q rows1"
    and k1: "map fst rows1 = (if timestamp m - f \<in> set (map fst rows) then map fst rows
                               else map fst rows @ [timestamp m - f])"
    and s1: "\<forall>t i. i < w \<longrightarrow> slot rows1 t i =
                 (if t = timestamp m - f \<and> i = j then Some m else slot rows t i)"
    by blast
  from Cons.prems have rest: "\<forall>m \<in> set ms. Q m \<and> (\<exists>j. idx (from_w m) = Some j \<and> j < w)" by simp
  from Cons.IH [OF ok1 rest] obtain rows' where
    pa: "place_all idx w f rows1 ms = Inr rows'" and ok': "rows_ok w Q rows'"
    and k': "set (map fst rows') = set (map fst rows1) \<union> (\<lambda>m. timestamp m - f) ` set ms"
    and s': "\<forall>t i. i < w \<longrightarrow> slot rows' t i =
                 (case latest (\<lambda>m. timestamp m - f = t \<and> idx (from_w m) = Some i) ms of
                    None \<Rightarrow> slot rows1 t i | Some m \<Rightarrow> Some m)"
    by blast
  have a: "place_all idx w f rows (m # ms) = Inr rows'" using p pa by simp
  have b: "set (map fst rows') = set (map fst rows) \<union> (\<lambda>m. timestamp m - f) ` set (m # ms)"
    using k' k1 by auto
  have c: "slot rows' t i =
      (case latest (\<lambda>m. timestamp m - f = t \<and> idx (from_w m) = Some i) (m # ms) of
         None \<Rightarrow> slot rows t i | Some m \<Rightarrow> Some m)" if "i < w" for t i
    using that s' s1 j by (auto simp: latest_Cons split: option.splits)
  from a ok' b c show ?case by blast
qed

lemma place_all_Inl:
  assumes "m \<in> set ms" and "idx (from_w m) = None"
  shows "\<exists>e. place_all idx w f rows ms = Inl e"
  using assms
proof (induction ms arbitrary: rows)
  case Nil
  then show ?case by simp
next
  case (Cons x ms)
  show ?case
  proof (cases "place idx w f rows x")
    case (Inl e)
    then show ?thesis by simp
  next
    case (Inr rows1)
    then have "x \<noteq> m" using Cons.prems(2) by (auto simp: place_def Let_def)
    with Cons.prems have "m \<in> set ms" by simp
    from Cons.IH [OF this Cons.prems(2), of rows1] Inr show ?thesis by simp
  qed
qed

lemma place_all_sorted:
  assumes "rows_ok w Q rows"
    and "\<forall>m \<in> set ms. Q m \<and> (\<exists>j. idx (from_w m) = Some j \<and> j < w)"
    and "sorted (map timestamp ms)"
    and "sorted_wrt (<) (map fst rows)"
    and "\<forall>k \<in> set (map fst rows). \<forall>m \<in> set ms. k \<le> timestamp m - f"
    and "place_all idx w f rows ms = Inr rows'"
  shows "sorted_wrt (<) (map fst rows')"
  using assms
proof (induction ms arbitrary: rows)
  case Nil
  then show ?case by simp
next
  case (Cons m ms)
  from Cons.prems(2) obtain j where j: "idx (from_w m) = Some j" "j < w" and q: "Q m" by auto
  from place_Inr [where Q = Q and idx = idx and m = m and f = f, OF Cons.prems(1) j q] obtain rows1 where
    p: "place idx w f rows m = Inr rows1" and ok1: "rows_ok w Q rows1"
    and k1: "map fst rows1 = (if timestamp m - f \<in> set (map fst rows) then map fst rows
                               else map fst rows @ [timestamp m - f])"
    by blast
  from Cons.prems(2) have rest: "\<forall>m \<in> set ms. Q m \<and> (\<exists>j. idx (from_w m) = Some j \<and> j < w)" by simp
  from Cons.prems(3) have srt: "sorted (map timestamp ms)"
    and le: "\<forall>x \<in> set ms. timestamp m \<le> timestamp x" by auto
  have s1: "sorted_wrt (<) (map fst rows1)"
  proof (cases "timestamp m - f \<in> set (map fst rows)")
    case True
    with k1 Cons.prems(4) show ?thesis by simp
  next
    case False
    have "\<forall>k \<in> set (map fst rows). k < timestamp m - f"
    proof
      fix k assume k: "k \<in> set (map fst rows)"
      with Cons.prems(5) have "k \<le> timestamp m - f" by auto
      moreover from k False have "k \<noteq> timestamp m - f" by blast
      ultimately show "k < timestamp m - f" by simp
    qed
    with False k1 Cons.prems(4) show ?thesis by (simp add: sorted_wrt_append)
  qed
  have b1: "\<forall>k \<in> set (map fst rows1). \<forall>x \<in> set ms. k \<le> timestamp x - f"
  proof (intro ballI)
    fix k x assume k: "k \<in> set (map fst rows1)" and x: "x \<in> set ms"
    from k k1 have "k \<in> set (map fst rows) \<or> k = timestamp m - f" by (auto split: if_splits)
    then show "k \<le> timestamp x - f"
    proof
      assume "k \<in> set (map fst rows)"
      with Cons.prems(5) x show ?thesis by auto
    next
      assume "k = timestamp m - f"
      with le x show ?thesis by simp
    qed
  qed
  from Cons.prems(6) p have "place_all idx w f rows1 ms = Inr rows'" by simp
  from Cons.IH [OF ok1 rest srt s1 b1 this] show ?case .
qed

lemma index_dict_bound:
  assumes "sorted_keys block_logs = Inr sk" and "from_w m \<in> fst ` set block_logs"
  shows "\<exists>j. index_dict sk (from_w m) = Some j \<and> j < length block_logs"
proof -
  from assms have "from_w m \<in> dom (index_dict sk)"
    by (simp add: index_dict_dom sorted_keys_Inr(1))
  then obtain j where j: "index_dict sk (from_w m) = Some j" by auto
  from index_dict_Some [OF j] sorted_keys_Inr(2) [OF assms(1)] j show ?thesis by simp
qed

lemma timeline_matrix_InrD:
  assumes "timeline_matrix all_messages block_logs = Inr (sk, rows)"
  shows "all_messages \<noteq> []"
    and "sorted_keys block_logs = Inr sk"
    and "place_all (index_dict sk) (length block_logs) (timestamp (hd all_messages)) [] all_messages = Inr rows"
    and "\<forall>m \<in> set all_messages. from_w m \<in> fst ` set block_logs"
proof -
  from assms show ne: "all_messages \<noteq> []"
    by (auto simp: timeline_matrix_def)
  then obtain m0 rest where ms: "all_messages = m0 # rest" by (cases all_messages) auto
  from assms show sk: "sorted_keys block_logs = Inr sk"
    by (auto simp: timeline_matrix_def ms split: sum.splits)
  from assms sk show pa: "place_all (index_dict sk) (length block_logs) (timestamp (hd all_messages)) [] all_messages = Inr rows"
    by (auto simp: timeline_matrix_def ms split: sum.splits)
  show "\<forall>m \<in> set all_messages. from_w m \<in> fst ` set block_logs"
  proof
    fix m assume m: "m \<in> set all_messages"
    show "from_w m \<in> fst ` set block_logs"
    proof (rule ccontr)
      assume "from_w m \<notin> fst ` set block_logs"
      then have "index_dict sk (from_w m) = None"
        using index_dict_dom [of sk] sorted_keys_Inr(1) [OF sk] by auto
      from place_all_Inl [where idx = "index_dict sk" and w = "length block_logs"
          and f = "timestamp (hd all_messages)" and rows = "[]", OF m this] pa
      show False by simp
    qed
  qed
qed

lemma timeline_matrix_total:
  assumes "all_messages \<noteq> []"
    and "list_all (\<lambda>k. suffix_key k \<noteq> None) (map fst block_logs)"
    and "list_all (\<lambda>m. from_w m \<in> fst ` set block_logs) all_messages"
  shows "\<exists>sk rows. timeline_matrix all_messages block_logs = Inr (sk, rows)"
proof -
  from assms(1) obtain m0 rest where ms: "all_messages = m0 # rest" by (cases all_messages) auto
  from sorted_keys_total [OF assms(2)] obtain sk where sk: "sorted_keys block_logs = Inr sk" ..
  have "\<forall>m \<in> set all_messages. True \<and> (\<exists>j. index_dict sk (from_w m) = Some j \<and> j < length block_logs)"
    using assms(3) index_dict_bound [OF sk] by (auto simp: list_all_iff)
  from place_all_Inr [where Q = "\<lambda>m. True" and idx = "index_dict sk" and f = "timestamp m0", OF rows_ok_Nil this]
  obtain rows where "place_all (index_dict sk) (length block_logs) (timestamp m0) [] all_messages = Inr rows"
    by blast
  then show ?thesis using sk by (simp add: timeline_matrix_def ms)
qed

lemma timeline_matrix_rows:
  assumes "timeline_matrix all_messages block_logs = Inr (sk, rows)"
  shows "rows_ok (length block_logs) (\<lambda>m. m \<in> set all_messages) rows"
    and "set (map fst rows) = (\<lambda>m. timestamp m - timestamp (hd all_messages)) ` set all_messages"
    and "\<forall>t i. i < length block_logs \<longrightarrow> slot rows t i =
           latest (\<lambda>m. timestamp m - timestamp (hd all_messages) = t \<and> index_dict sk (from_w m) = Some i) all_messages"
proof -
  note d = timeline_matrix_InrD [OF assms]
  have "\<forall>m \<in> set all_messages. m \<in> set all_messages \<and> (\<exists>j. index_dict sk (from_w m) = Some j \<and> j < length block_logs)"
    using d(4) index_dict_bound [OF d(2)] by auto
  from place_all_Inr [where Q = "\<lambda>m. m \<in> set all_messages" and idx = "index_dict sk"
      and f = "timestamp (hd all_messages)", OF rows_ok_Nil this]
  obtain rows' where r: "place_all (index_dict sk) (length block_logs) (timestamp (hd all_messages)) [] all_messages = Inr rows'"
    and ok: "rows_ok (length block_logs) (\<lambda>m. m \<in> set all_messages) rows'"
    and ks: "set (map fst rows') = set (map fst ([] :: matrix)) \<union> (\<lambda>m. timestamp m - timestamp (hd all_messages)) ` set all_messages"
    and sl: "\<forall>t i. i < length block_logs \<longrightarrow> slot rows' t i =
                 (case latest (\<lambda>m. timestamp m - timestamp (hd all_messages) = t \<and> index_dict sk (from_w m) = Some i) all_messages of
                    None \<Rightarrow> slot [] t i | Some m \<Rightarrow> Some m)"
    by blast
  from r d(3) have eq: "rows' = rows" by simp
  from ok eq show "rows_ok (length block_logs) (\<lambda>m. m \<in> set all_messages) rows" by simp
  from ks eq show "set (map fst rows) = (\<lambda>m. timestamp m - timestamp (hd all_messages)) ` set all_messages" by simp
  from sl eq show "\<forall>t i. i < length block_logs \<longrightarrow> slot rows t i =
           latest (\<lambda>m. timestamp m - timestamp (hd all_messages) = t \<and> index_dict sk (from_w m) = Some i) all_messages"
    by (auto simp: slot_def split: option.splits)
qed

lemma index_dict_distinct:
  assumes "distinct sk" and "i < length sk"
  shows "index_dict sk k = Some i \<longleftrightarrow> k = sk ! i"
proof
  assume "index_dict sk k = Some i"
  from index_dict_Some [OF this] show "k = sk ! i" by simp
next
  assume k: "k = sk ! i"
  with assms(2) have "k \<in> dom (index_dict sk)" by (simp add: index_dict_dom)
  then obtain j where j: "index_dict sk k = Some j" by auto
  from index_dict_Some [OF j] k assms have "j = i" by (auto simp: nth_eq_iff_index_eq)
  with j show "index_dict sk k = Some i" by simp
qed

section \<open>Alignment\<close>

text \<open>
  C4: for a non-empty message list whose workers all are keys of the block-log mapping
  (a dictionary, so the keys are distinct, with identifiers that have a numeric suffix),
  the matrix is built; its rows are the relative timestamps of the messages, every row
  has one slot per worker, and the slot of row \<open>t\<close> and column \<open>i\<close> holds the last message, in
  iteration order, of the worker of column \<open>i\<close> with relative timestamp \<open>t\<close>, or nothing
  when there is none.  So a message is stored in the slot of its own relative timestamp
  and worker only, a later message of the same slot replaces it, and a slot holds at most
  one message.
\<close>

theorem timeline_matrix_places_messages:
  assumes "all_messages \<noteq> []"
    and "distinct (map fst block_logs)"
    and "list_all (\<lambda>k. suffix_key k \<noteq> None) (map fst block_logs)"
    and "list_all (\<lambda>m. from_w m \<in> fst ` set block_logs) all_messages"
  shows "\<exists>sk rows. timeline_matrix all_messages block_logs = Inr (sk, rows)
           \<and> distinct sk \<and> set sk = fst ` set block_logs
           \<and> distinct (map fst rows)
           \<and> set (map fst rows) = (\<lambda>m. timestamp m - timestamp (hd all_messages)) ` set all_messages
           \<and> (\<forall>row \<in> snd ` set rows. length row = length sk)
           \<and> (\<forall>t. \<forall>i < length sk. slot rows t i =
                 latest (\<lambda>m. timestamp m - timestamp (hd all_messages) = t \<and> from_w m = sk ! i) all_messages)
           \<and> (\<forall>t m. \<forall>i < length sk. slot rows t i = Some m \<longrightarrow>
                 m \<in> set all_messages \<and> t = timestamp m - timestamp (hd all_messages) \<and> from_w m = sk ! i)"
proof -
  from timeline_matrix_total [OF assms(1,3,4)] obtain sk rows
    where tm: "timeline_matrix all_messages block_logs = Inr (sk, rows)" by blast
  note d = timeline_matrix_InrD [OF tm]
  note r = timeline_matrix_rows [OF tm]
  note s = sorted_keys_Inr [OF d(2)]
  have dsk: "distinct sk" using s(3) assms(2) by simp
  have len: "length sk = length block_logs" by (rule s(2))
  have sl: "slot rows t i =
      latest (\<lambda>m. timestamp m - timestamp (hd all_messages) = t \<and> from_w m = sk ! i) all_messages"
    if "i < length sk" for t i
  proof -
    have e: "(\<lambda>m. timestamp m - timestamp (hd all_messages) = t \<and> index_dict sk (from_w m) = Some i)
        = (\<lambda>m. timestamp m - timestamp (hd all_messages) = t \<and> from_w m = sk ! i)"
      using index_dict_distinct [OF dsk that] by auto
    have "slot rows t i =
        latest (\<lambda>m. timestamp m - timestamp (hd all_messages) = t \<and> index_dict sk (from_w m) = Some i) all_messages"
      using r(3) that len by simp
    then show ?thesis unfolding e .
  qed
  have one: "m \<in> set all_messages \<and> t = timestamp m - timestamp (hd all_messages) \<and> from_w m = sk ! i"
    if "i < length sk" "slot rows t i = Some m" for t i m
  proof -
    from sl [OF that(1), of t] that(2)
    have "latest (\<lambda>m. timestamp m - timestamp (hd all_messages) = t \<and> from_w m = sk ! i) all_messages = Some m"
      by simp
    from latest_Some [OF this] show ?thesis by simp
  qed
  have w: "\<forall>row \<in> snd ` set rows. length row = length sk"
    using r(1) len by (auto simp: rows_ok_def)
  have dr: "distinct (map fst rows)" using r(1) by (simp add: rows_ok_def)
  show ?thesis
  proof (intro exI conjI)
    show "timeline_matrix all_messages block_logs = Inr (sk, rows)" by (rule tm)
    show "distinct sk" by (rule dsk)
    show "set sk = fst ` set block_logs" by (rule s(1))
    show "distinct (map fst rows)" by (rule dr)
    show "set (map fst rows) = (\<lambda>m. timestamp m - timestamp (hd all_messages)) ` set all_messages"
      by (rule r(2))
    show "\<forall>row \<in> snd ` set rows. length row = length sk" by (rule w)
    show "\<forall>t. \<forall>i < length sk. slot rows t i =
        latest (\<lambda>m. timestamp m - timestamp (hd all_messages) = t \<and> from_w m = sk ! i) all_messages"
      using sl by simp
    show "\<forall>t m. \<forall>i < length sk. slot rows t i = Some m \<longrightarrow>
        m \<in> set all_messages \<and> t = timestamp m - timestamp (hd all_messages) \<and> from_w m = sk ! i"
      using one by simp
  qed
qed

theorem timeline_matrix_places_messages_witness:
  "collision_messages \<noteq> []
   \<and> distinct (map fst collision_logs)
   \<and> list_all (\<lambda>k. suffix_key k \<noteq> None) (map fst collision_logs)
   \<and> list_all (\<lambda>m. from_w m \<in> fst ` set collision_logs) collision_messages
   \<and> (\<exists>sk rows. timeline_matrix collision_messages collision_logs = Inr (sk, rows)
           \<and> distinct sk \<and> set sk = fst ` set collision_logs
           \<and> distinct (map fst rows)
           \<and> set (map fst rows) = (\<lambda>m. timestamp m - timestamp (hd collision_messages)) ` set collision_messages
           \<and> (\<forall>row \<in> snd ` set rows. length row = length sk)
           \<and> (\<forall>t. \<forall>i < length sk. slot rows t i =
                 latest (\<lambda>m. timestamp m - timestamp (hd collision_messages) = t \<and> from_w m = sk ! i) collision_messages)
           \<and> (\<forall>t m. \<forall>i < length sk. slot rows t i = Some m \<longrightarrow>
                 m \<in> set collision_messages \<and> t = timestamp m - timestamp (hd collision_messages) \<and> from_w m = sk ! i))
   \<and> timeline_matrix collision_messages collision_logs =
       Inr ([''B0'', ''B1''],
            [(0, [Some \<lparr>from_w = ''B0'', timestamp = 10, type_m = ''FOUND_RESULT'', payload = []\<rparr>,
                  Some \<lparr>from_w = ''B1'', timestamp = 10, type_m = ''ERROR_CONDITION'', payload = ''second''\<rparr>]),
             (2, [Some \<lparr>from_w = ''B0'', timestamp = 12, type_m = ''ERROR_CONDITION'', payload = ''third''\<rparr>, None])])"
proof -
  have h1: "collision_messages \<noteq> []" by (simp add: collision_messages_def)
  have h2: "distinct (map fst collision_logs)" by (simp add: collision_logs_def)
  have h3: "list_all (\<lambda>k. suffix_key k \<noteq> None) (map fst collision_logs)" by code_simp
  have h4: "list_all (\<lambda>m. from_w m \<in> fst ` set collision_logs) collision_messages"
    by (simp add: collision_logs_def collision_messages_def)
  have v: "timeline_matrix collision_messages collision_logs =
       Inr ([''B0'', ''B1''],
            [(0, [Some \<lparr>from_w = ''B0'', timestamp = 10, type_m = ''FOUND_RESULT'', payload = []\<rparr>,
                  Some \<lparr>from_w = ''B1'', timestamp = 10, type_m = ''ERROR_CONDITION'', payload = ''second''\<rparr>]),
             (2, [Some \<lparr>from_w = ''B0'', timestamp = 12, type_m = ''ERROR_CONDITION'', payload = ''third''\<rparr>, None])])"
    by code_simp
  note c = timeline_matrix_places_messages [OF h1 h2 h3 h4]
  show ?thesis
    by (rule conjI [OF h1 conjI [OF h2 conjI [OF h3 conjI [OF h4 conjI [OF c v]]]]])
qed

text \<open>
  C6: when some message of the input names a worker that is not a key of the block-log
  mapping, the construction of the matrix raises, and so does the table.
\<close>

theorem unknown_worker_is_fatal:
  assumes "m \<in> set all_messages" and "from_w m \<notin> fst ` set block_logs"
  shows "\<exists>e. timeline_matrix all_messages block_logs = Inl e
           \<and> html_dict_to_html_table all_messages block_logs = Inl e"
proof (cases "timeline_matrix all_messages block_logs")
  case (Inl e)
  then show ?thesis by (simp add: html_dict_to_html_table_def)
next
  case (Inr p)
  obtain sk rows where "p = (sk, rows)" by (cases p)
  with Inr timeline_matrix_InrD(4) [of all_messages block_logs sk rows] assms show ?thesis by auto
qed

theorem unknown_worker_is_fatal_witness:
  "\<lparr>from_w = ''B9'', timestamp = 4, type_m = ''FOUND_RESULT'', payload = []\<rparr>
      \<in> set [\<lparr>from_w = ''B0'', timestamp = 1, type_m = ''FOUND_RESULT'', payload = []\<rparr>,
              \<lparr>from_w = ''B9'', timestamp = 4, type_m = ''FOUND_RESULT'', payload = []\<rparr>]
   \<and> from_w \<lparr>from_w = ''B9'', timestamp = 4, type_m = ''FOUND_RESULT'', payload = []\<rparr> \<notin> fst ` set collision_logs
   \<and> (\<exists>e. timeline_matrix [\<lparr>from_w = ''B0'', timestamp = 1, type_m = ''FOUND_RESULT'', payload = []\<rparr>,
              \<lparr>from_w = ''B9'', timestamp = 4, type_m = ''FOUND_RESULT'', payload = []\<rparr>] collision_logs = Inl e
         \<and> html_dict_to_html_table [\<lparr>from_w = ''B0'', timestamp = 1, type_m = ''FOUND_RESULT'', payload = []\<rparr>,
              \<lparr>from_w = ''B9'', timestamp = 4, type_m = ''FOUND_RESULT'', payload = []\<rparr>] collision_logs = Inl e)
   \<and> html_dict_to_html_table [\<lparr>from_w = ''B0'', timestamp = 1, type_m = ''FOUND_RESULT'', payload = []\<rparr>,
              \<lparr>from_w = ''B9'', timestamp = 4, type_m = ''FOUND_RESULT'', payload = []\<rparr>] collision_logs
       = Inl (KeyError ''B9'')"
proof -
  have h1: "\<lparr>from_w = ''B9'', timestamp = 4, type_m = ''FOUND_RESULT'', payload = []\<rparr>
      \<in> set [\<lparr>from_w = ''B0'', timestamp = 1, type_m = ''FOUND_RESULT'', payload = []\<rparr>,
              \<lparr>from_w = ''B9'', timestamp = 4, type_m = ''FOUND_RESULT'', payload = []\<rparr>]" by simp
  have h2: "from_w \<lparr>from_w = ''B9'', timestamp = 4, type_m = ''FOUND_RESULT'', payload = []\<rparr> \<notin> fst ` set collision_logs"
    by (simp add: collision_logs_def)
  have v: "html_dict_to_html_table [\<lparr>from_w = ''B0'', timestamp = 1, type_m = ''FOUND_RESULT'', payload = []\<rparr>,
              \<lparr>from_w = ''B9'', timestamp = 4, type_m = ''FOUND_RESULT'', payload = []\<rparr>] collision_logs
       = Inl (KeyError ''B9'')" by code_simp
  note c = unknown_worker_is_fatal [OF h1 h2]
  show ?thesis
    by (rule conjI [OF h1 conjI [OF h2 conjI [OF c v]]])
qed

section \<open>Rendering of the rows\<close>

lemma sequence_Inr: "sequence xs = Inr ys \<Longrightarrow> xs = map Inr ys"
  by (induction xs arbitrary: ys) (auto split: sum.splits)

lemma sequence_total: "\<forall>x \<in> set xs. \<exists>y. x = Inr y \<Longrightarrow> \<exists>ys. sequence xs = Inr ys"
  by (induction xs) (auto split: sum.splits)

lemma table_row_Inr:
  assumes "table_row block_logs r = Inr tr"
  shows "\<exists>cells. tr = Elem ''tr'' [] (Elem ''td'' [] [Text (str_int (fst r))] # cells)
           \<and> length cells = length (snd r)"
proof -
  from assms obtain cells where c: "sequence (map (table_cell block_logs) (snd r)) = Inr cells"
    and tr: "tr = Elem ''tr'' [] (Elem ''td'' [] [Text (str_int (fst r))] # cells)"
    by (auto simp: table_row_def split: sum.splits)
  from sequence_Inr [OF c] have "length (map (table_cell block_logs) (snd r)) = length (map Inr cells :: (py_error + html) list)"
    by simp
  then have "length cells = length (snd r)" by simp
  with tr show ?thesis by blast
qed

lemma table_rows_Inr:
  "sequence (map (table_row block_logs) rows) = Inr trs \<Longrightarrow>
     list_all2 (\<lambda>r tr. \<exists>cells. tr = Elem ''tr'' [] (Elem ''td'' [] [Text (str_int (fst r))] # cells)
                  \<and> length cells = length (snd r)) rows trs"
proof (induction rows arbitrary: trs)
  case Nil
  then show ?case by simp
next
  case (Cons r rows)
  from Cons.prems obtain tr trs' where tr: "table_row block_logs r = Inr tr"
    and rest: "sequence (map (table_row block_logs) rows) = Inr trs'" and trs: "trs = tr # trs'"
    by (auto split: sum.splits)
  from table_row_Inr [OF tr] Cons.IH [OF rest] trs show ?case by simp
qed

lemma html_table_InrD:
  assumes "html_dict_to_html_table all_messages block_logs = Inr table"
  shows "\<exists>sk rows trs. timeline_matrix all_messages block_logs = Inr (sk, rows)
           \<and> table = Elem ''table'' [(''klass'', ''worker'')] (header_row sk # trs)
           \<and> list_all2 (\<lambda>r tr. \<exists>cells. tr = Elem ''tr'' [] (Elem ''td'' [] [Text (str_int (fst r))] # cells)
                  \<and> length cells = length (snd r)) rows trs"
proof -
  from assms obtain sk rows trs where tm: "timeline_matrix all_messages block_logs = Inr (sk, rows)"
    and sq: "sequence (map (table_row block_logs) rows) = Inr trs"
    and t: "table = Elem ''table'' [(''klass'', ''worker'')] (header_row sk # trs)"
    by (auto simp: html_dict_to_html_table_def split: sum.splits prod.splits)
  from tm t table_rows_Inr [OF sq] show ?thesis by blast
qed

lemma table_cell_total:
  assumes "\<forall>m. c = Some m \<longrightarrow> from_w m \<in> fst ` set block_logs"
  shows "\<exists>cell. table_cell block_logs c = Inr cell"
proof (cases c)
  case None
  then show ?thesis by simp
next
  case (Some m)
  with assms have "from_w m \<in> fst ` set block_logs" by simp
  then have "map_of block_logs (from_w m) \<noteq> None" by (simp add: map_of_eq_None_iff)
  with Some show ?thesis by (auto simp: Let_def)
qed

lemma table_row_total:
  assumes "\<forall>m. Some m \<in> set (snd r) \<longrightarrow> from_w m \<in> fst ` set block_logs"
  shows "\<exists>tr. table_row block_logs r = Inr tr"
proof -
  have "\<forall>x \<in> set (map (table_cell block_logs) (snd r)). \<exists>y. x = Inr y"
  proof
    fix x assume "x \<in> set (map (table_cell block_logs) (snd r))"
    then obtain c where c: "c \<in> set (snd r)" and x: "x = table_cell block_logs c" by auto
    from c assms have "\<forall>m. c = Some m \<longrightarrow> from_w m \<in> fst ` set block_logs" by auto
    from table_cell_total [OF this] x show "\<exists>y. x = Inr y" by simp
  qed
  from sequence_total [OF this] show ?thesis by (auto simp: table_row_def)
qed

lemma html_table_total:
  assumes "all_messages \<noteq> []"
    and "list_all (\<lambda>k. suffix_key k \<noteq> None) (map fst block_logs)"
    and "list_all (\<lambda>m. from_w m \<in> fst ` set block_logs) all_messages"
  shows "\<exists>table. html_dict_to_html_table all_messages block_logs = Inr table"
proof -
  from timeline_matrix_total [OF assms] obtain sk rows
    where tm: "timeline_matrix all_messages block_logs = Inr (sk, rows)" by blast
  from timeline_matrix_rows(1) [OF tm]
  have "\<forall>p \<in> set rows. \<forall>m. Some m \<in> set (snd p) \<longrightarrow> m \<in> set all_messages"
    by (simp add: rows_ok_def)
  with assms(3) have "\<forall>p \<in> set rows. \<forall>m. Some m \<in> set (snd p) \<longrightarrow> from_w m \<in> fst ` set block_logs"
    by (auto simp: list_all_iff)
  then have "\<forall>x \<in> set (map (table_row block_logs) rows). \<exists>y. x = Inr y"
    using table_row_total [of _ block_logs] by auto
  from sequence_total [OF this] tm show ?thesis
    by (auto simp: html_dict_to_html_table_def)
qed

lemma sorted_map_fst:
  fixes xs :: "(int \<times> string) list"
  shows "sorted xs \<Longrightarrow> sorted (map fst xs)"
  by (induction xs) (auto simp: less_eq_prod_def)

lemma sort_messages_props:
  "set (sort_messages ms) = set ms" "sorted (map timestamp (sort_messages ms))"
proof -
  show "set (sort_messages ms) = set ms" by (simp add: sort_messages_def)
  have "sorted (map (\<lambda>entry. (timestamp entry, drop 1 (from_w entry))) (sort_messages ms))"
    unfolding sort_messages_def by (rule sorted_sort_key)
  from sorted_map_fst [OF this] show "sorted (map timestamp (sort_messages ms))"
    by (simp add: comp_def)
qed

lemma timeline_matrix_sorted:
  assumes "timeline_matrix all_messages block_logs = Inr (sk, rows)"
    and "sorted (map timestamp all_messages)"
  shows "sorted_wrt (<) (map fst rows)"
proof -
  note d = timeline_matrix_InrD [OF assms(1)]
  have q: "\<forall>m \<in> set all_messages. True \<and> (\<exists>j. index_dict sk (from_w m) = Some j \<and> j < length block_logs)"
    using d(4) index_dict_bound [OF d(2)] by auto
  show ?thesis
    by (rule place_all_sorted [where Q = "\<lambda>m. True" and idx = "index_dict sk" and rows = "[]"
          and f = "timestamp (hd all_messages)" and ms = all_messages and w = "length block_logs",
          OF rows_ok_Nil q assms(2) _ _ d(3)]) simp_all
qed

section \<open>Row order\<close>

text \<open>
  C1: \<open>main\<close> sorts the collected messages by timestamp and identifier suffix (line 155)
  before it renders them.  For every non-empty message list (with workers that are keys
  of the block-log mapping and identifiers that have a numeric suffix, so that nothing
  raises) the matrix of the sorted list is built and its table is rendered.  The table
  has one data row per row of the matrix, in the order of the matrix, with the row key as
  the text of its first cell and one further cell per worker.  There is at least one row;
  the row keys are exactly the timestamps of the messages minus the first timestamp of
  the sorted list, which is the least timestamp; and the keys are strictly ascending from
  row to row.
\<close>

theorem rows_ascending:
  assumes "all_messages \<noteq> []"
    and "list_all (\<lambda>k. suffix_key k \<noteq> None) (map fst block_logs)"
    and "list_all (\<lambda>m. from_w m \<in> fst ` set block_logs) all_messages"
  shows "\<exists>sk rows trs.
           timeline_matrix (sort_messages all_messages) block_logs = Inr (sk, rows)
           \<and> html_dict_to_html_table (sort_messages all_messages) block_logs =
               Inr (Elem ''table'' [(''klass'', ''worker'')] (header_row sk # trs))
           \<and> list_all2 (\<lambda>r tr. \<exists>cells. tr = Elem ''tr'' [] (Elem ''td'' [] [Text (str_int (fst r))] # cells)
                  \<and> length cells = length block_logs) rows trs
           \<and> rows \<noteq> []
           \<and> set (map fst rows) =
               (\<lambda>m. timestamp m - timestamp (hd (sort_messages all_messages))) ` set all_messages
           \<and> (\<forall>m \<in> set all_messages. timestamp (hd (sort_messages all_messages)) \<le> timestamp m)
           \<and> sorted_wrt (<) (map fst rows)"
proof -
  let ?sm = "sort_messages all_messages"
  have st: "set ?sm = set all_messages" by (rule sort_messages_props(1))
  have ne: "?sm \<noteq> []" using assms(1) st by auto
  have fr: "list_all (\<lambda>m. from_w m \<in> fst ` set block_logs) ?sm"
    using assms(3) by (simp add: list_all_iff st)
  from html_table_total [OF ne assms(2) fr] obtain table
    where t: "html_dict_to_html_table ?sm block_logs = Inr table" ..
  from html_table_InrD [OF t] obtain sk rows trs
    where tm: "timeline_matrix ?sm block_logs = Inr (sk, rows)"
      and tb: "table = Elem ''table'' [(''klass'', ''worker'')] (header_row sk # trs)"
      and l2: "list_all2 (\<lambda>r tr. \<exists>cells. tr = Elem ''tr'' [] (Elem ''td'' [] [Text (str_int (fst r))] # cells)
                  \<and> length cells = length (snd r)) rows trs"
    by blast
  have t': "html_dict_to_html_table ?sm block_logs =
      Inr (Elem ''table'' [(''klass'', ''worker'')] (header_row sk # trs))"
    using t tb by simp
  have w: "\<forall>p \<in> set rows. length (snd p) = length block_logs"
    using timeline_matrix_rows(1) [OF tm] by (simp add: rows_ok_def)
  have l2': "list_all2 (\<lambda>r tr. \<exists>cells. tr = Elem ''tr'' [] (Elem ''td'' [] [Text (str_int (fst r))] # cells)
                  \<and> length cells = length block_logs) rows trs"
    unfolding list_all2_conv_all_nth
  proof (intro conjI allI impI)
    show "length rows = length trs" using l2 by (rule list_all2_lengthD)
  next
    fix i assume i: "i < length rows"
    from list_all2_nthD [OF l2 i] obtain cells
      where c: "trs ! i = Elem ''tr'' [] (Elem ''td'' [] [Text (str_int (fst (rows ! i)))] # cells)"
        and l: "length cells = length (snd (rows ! i))" by blast
    from i have "rows ! i \<in> set rows" by simp
    with w l have "length cells = length block_logs" by simp
    with c show "\<exists>cells. trs ! i = Elem ''tr'' [] (Elem ''td'' [] [Text (str_int (fst (rows ! i)))] # cells)
        \<and> length cells = length block_logs" by blast
  qed
  have ks: "set (map fst rows) = (\<lambda>m. timestamp m - timestamp (hd ?sm)) ` set all_messages"
    using timeline_matrix_rows(2) [OF tm] st by simp
  have rne: "rows \<noteq> []"
  proof
    assume "rows = []"
    with ks have "set all_messages = {}" by simp
    with assms(1) show False by simp
  qed
  have mn: "\<forall>m \<in> set all_messages. timestamp (hd ?sm) \<le> timestamp m"
  proof
    fix m assume "m \<in> set all_messages"
    with st have m: "m \<in> set ?sm" by simp
    from ne obtain x xs where x: "?sm = x # xs" by (cases ?sm) auto
    from sort_messages_props(2) [of all_messages] x
    have "\<forall>y \<in> set xs. timestamp x \<le> timestamp y" by simp
    with m x show "timestamp (hd ?sm) \<le> timestamp m" by auto
  qed
  have s: "sorted_wrt (<) (map fst rows)"
    by (rule timeline_matrix_sorted [OF tm sort_messages_props(2)])
  show ?thesis
    by (rule exI [of _ sk], rule exI [of _ rows], rule exI [of _ trs])
       (rule conjI [OF tm conjI [OF t' conjI [OF l2' conjI [OF rne conjI [OF ks conjI [OF mn s]]]]]])
qed

theorem rows_ascending_witness:
  "unsorted_messages \<noteq> []
   \<and> list_all (\<lambda>k. suffix_key k \<noteq> None) (map fst collision_logs)
   \<and> list_all (\<lambda>m. from_w m \<in> fst ` set collision_logs) unsorted_messages
   \<and> (\<exists>sk rows trs.
           timeline_matrix (sort_messages unsorted_messages) collision_logs = Inr (sk, rows)
           \<and> html_dict_to_html_table (sort_messages unsorted_messages) collision_logs =
               Inr (Elem ''table'' [(''klass'', ''worker'')] (header_row sk # trs))
           \<and> list_all2 (\<lambda>r tr. \<exists>cells. tr = Elem ''tr'' [] (Elem ''td'' [] [Text (str_int (fst r))] # cells)
                  \<and> length cells = length collision_logs) rows trs
           \<and> rows \<noteq> []
           \<and> set (map fst rows) =
               (\<lambda>m. timestamp m - timestamp (hd (sort_messages unsorted_messages))) ` set unsorted_messages
           \<and> (\<forall>m \<in> set unsorted_messages. timestamp (hd (sort_messages unsorted_messages)) \<le> timestamp m)
           \<and> sorted_wrt (<) (map fst rows))
   \<and> timeline_matrix (sort_messages unsorted_messages) collision_logs =
       Inr ([''B0'', ''B1''],
            [(0, [None, Some \<lparr>from_w = ''B1'', timestamp = 10, type_m = ''BLOCK_POSTCONDITION'', payload = ''early''\<rparr>]),
             (1, [Some \<lparr>from_w = ''B0'', timestamp = 11, type_m = ''FOUND_RESULT'', payload = []\<rparr>, None]),
             (2, [None, Some \<lparr>from_w = ''B1'', timestamp = 12, type_m = ''ERROR_CONDITION'', payload = ''late''\<rparr>])])"
proof -
  have h1: "unsorted_messages \<noteq> []" by (simp add: unsorted_messages_def)
  have h2: "list_all (\<lambda>k. suffix_key k \<noteq> None) (map fst collision_logs)" by code_simp
  have h3: "list_all (\<lambda>m. from_w m \<in> fst ` set collision_logs) unsorted_messages"
    by (simp add: collision_logs_def unsorted_messages_def)
  have v: "timeline_matrix (sort_messages unsorted_messages) collision_logs =
       Inr ([''B0'', ''B1''],
            [(0, [None, Some \<lparr>from_w = ''B1'', timestamp = 10, type_m = ''BLOCK_POSTCONDITION'', payload = ''early''\<rparr>]),
             (1, [Some \<lparr>from_w = ''B0'', timestamp = 11, type_m = ''FOUND_RESULT'', payload = []\<rparr>, None]),
             (2, [None, Some \<lparr>from_w = ''B1'', timestamp = 12, type_m = ''ERROR_CONDITION'', payload = ''late''\<rparr>])])"
    by code_simp
  note c = rows_ascending [OF h1 h2 h3]
  show ?thesis
    by (rule conjI [OF h1 conjI [OF h2 conjI [OF h3 conjI [OF c v]]]])
qed

text \<open>
  \<open>html_dict_to_html_table\<close> itself does not sort: the rows keep the order in which their
  timestamps first occur in its argument.
\<close>

lemma unsorted_input_keeps_order:
  "timeline_matrix unsorted_messages collision_logs =
       Inr ([''B0'', ''B1''],
            [(0, [None, Some \<lparr>from_w = ''B1'', timestamp = 12, type_m = ''ERROR_CONDITION'', payload = ''late''\<rparr>]),
             (- 1, [Some \<lparr>from_w = ''B0'', timestamp = 11, type_m = ''FOUND_RESULT'', payload = []\<rparr>, None]),
             (- 2, [None, Some \<lparr>from_w = ''B1'', timestamp = 10, type_m = ''BLOCK_POSTCONDITION'', payload = ''early''\<rparr>])])"
  by code_simp

section \<open>Columns\<close>

text \<open>
  C5, as the script computes it: whenever \<open>main\<close> renders a table, the header has the cell
  \<open>time\<close> and then exactly one cell per worker identifier of the block-analysis file (the
  first argument of \<open>main\<close>), ordered non-decreasingly by the numeric suffix of the
  identifiers, and every data row has the cell of its relative timestamp and then one
  cell per worker.
\<close>

theorem table_columns:
  assumes "main block_logs summary = Inr out"
    and "report out = Some table"
    and "distinct (map fst block_logs)"
  shows "\<exists>sk trs.
           table = Elem ''table'' [(''klass'', ''worker'')]
                     (Elem ''tr'' [(''klass'', ''header_row'')]
                        (map (\<lambda>key. Elem ''th'' [] [Text key]) (''time'' # sk)) # trs)
           \<and> distinct sk \<and> set sk = fst ` set block_logs \<and> length sk = length block_logs
           \<and> (\<exists>ns. map suffix_key sk = map Some ns \<and> sorted ns)
           \<and> (\<forall>tr \<in> set trs. \<exists>t cells. tr = Elem ''tr'' [] (Elem ''td'' [] [Text t] # cells)
                  \<and> length cells = length block_logs)"
proof -
  from assms(1,2) have t: "html_dict_to_html_table (sort_messages (collect_messages block_logs)) block_logs = Inr table"
    by (auto simp: main_def Let_def split: if_splits sum.splits)
  from html_table_InrD [OF t] obtain sk rows trs
    where tm: "timeline_matrix (sort_messages (collect_messages block_logs)) block_logs = Inr (sk, rows)"
      and tb: "table = Elem ''table'' [(''klass'', ''worker'')] (header_row sk # trs)"
      and l2: "list_all2 (\<lambda>r tr. \<exists>cells. tr = Elem ''tr'' [] (Elem ''td'' [] [Text (str_int (fst r))] # cells)
                  \<and> length cells = length (snd r)) rows trs"
    by blast
  note d = timeline_matrix_InrD [OF tm]
  note s = sorted_keys_Inr [OF d(2)]
  have w: "\<forall>p \<in> set rows. length (snd p) = length block_logs"
    using timeline_matrix_rows(1) [OF tm] by (simp add: rows_ok_def)
  have rows: "\<exists>t cells. tr = Elem ''tr'' [] (Elem ''td'' [] [Text t] # cells) \<and> length cells = length block_logs"
    if "tr \<in> set trs" for tr
  proof -
    from that obtain i where i: "i < length trs" "tr = trs ! i" by (auto simp: in_set_conv_nth)
    from l2 have len: "length rows = length trs" by (rule list_all2_lengthD)
    from list_all2_nthD2 [OF l2 i(1)] i(2) obtain cells
      where "tr = Elem ''tr'' [] (Elem ''td'' [] [Text (str_int (fst (rows ! i)))] # cells)"
        and "length cells = length (snd (rows ! i))" by auto
    moreover have "rows ! i \<in> set rows" using i(1) len by simp
    ultimately show ?thesis using w by auto
  qed
  have tb': "table = Elem ''table'' [(''klass'', ''worker'')]
                     (Elem ''tr'' [(''klass'', ''header_row'')]
                        (map (\<lambda>key. Elem ''th'' [] [Text key]) (''time'' # sk)) # trs)"
    using tb by (simp add: header_row_def)
  have dsk: "distinct sk" using s(3) assms(3) by simp
  have all_rows: "\<forall>tr \<in> set trs. \<exists>t cells. tr = Elem ''tr'' [] (Elem ''td'' [] [Text t] # cells)
                  \<and> length cells = length block_logs"
    using rows by blast
  show ?thesis
    by (rule exI [of _ sk], rule exI [of _ trs])
       (rule conjI [OF tb' conjI [OF dsk conjI [OF s(1) conjI [OF s(2) conjI [OF s(4) all_rows]]]]])
qed

theorem table_columns_witness:
  "main scenario_logs one_worker_logs =
      Inr \<lparr>report = Some (scenario_table ''none''), graph = Some (visualize one_worker_logs), browser_opened = True\<rparr>
   \<and> report \<lparr>report = Some (scenario_table ''none''), graph = Some (visualize one_worker_logs), browser_opened = True\<rparr>
       = Some (scenario_table ''none'')
   \<and> distinct (map fst scenario_logs)
   \<and> (\<exists>sk trs.
           scenario_table ''none'' = Elem ''table'' [(''klass'', ''worker'')]
                     (Elem ''tr'' [(''klass'', ''header_row'')]
                        (map (\<lambda>key. Elem ''th'' [] [Text key]) (''time'' # sk)) # trs)
           \<and> distinct sk \<and> set sk = fst ` set scenario_logs \<and> length sk = length scenario_logs
           \<and> (\<exists>ns. map suffix_key sk = map Some ns \<and> sorted ns)
           \<and> (\<forall>tr \<in> set trs. \<exists>t cells. tr = Elem ''tr'' [] (Elem ''td'' [] [Text t] # cells)
                  \<and> length cells = length scenario_logs))"
proof -
  have h1: "main scenario_logs one_worker_logs =
      Inr \<lparr>report = Some (scenario_table ''none''), graph = Some (visualize one_worker_logs), browser_opened = True\<rparr>"
    by code_simp
  have h2: "report \<lparr>report = Some (scenario_table ''none''), graph = Some (visualize one_worker_logs), browser_opened = True\<rparr>
       = Some (scenario_table ''none'')" by simp
  have h3: "distinct (map fst scenario_logs)" by (simp add: scenario_logs_def)
  note c = table_columns [OF h1 h2 h3]
  show ?thesis
    by (rule conjI [OF h1 conjI [OF h2 conjI [OF h3 c]]])
qed

text \<open>
  The claim C5 as it is written counts the workers of the summary file.  The summary file
  goes to the grapher only: with one worker in the block-analysis file and two workers in
  the summary file the table has one data column.
\<close>

theorem summary_file_counterexample:
  "main one_worker_logs scenario_logs =
      Inr \<lparr>report = Some (Elem ''table'' [(''klass'', ''worker'')]
                      [Elem ''tr'' [(''klass'', ''header_row'')]
                         [Elem ''th'' [] [Text ''time''], Elem ''th'' [] [Text ''B0'']],
                       Elem ''tr'' [] [Elem ''td'' [] [Text ''0''], scenario_cell ''none'']]),
           graph = Some (visualize scenario_logs), browser_opened = True\<rparr>
   \<and> map fst scenario_logs = [''B0'', ''B1'']"
  by code_simp

section \<open>The loops of \<open>visualize\<close>\<close>

lemma join_eq_Nil: "\<forall>x \<in> set xs. x \<noteq> [] \<Longrightarrow> join sep xs = [] \<longleftrightarrow> xs = []"
  by (induction sep xs rule: join.induct) auto

lemma node_label_eq:
  "node_label key info =
     (if filter (\<lambda>c. c \<noteq> []) (code info) = [] then key
      else key @ '':'' @ newline @ join newline (filter (\<lambda>c. c \<noteq> []) (code info)))"
proof -
  have "join newline (filter (\<lambda>c. c \<noteq> []) (code info)) = [] \<longleftrightarrow> filter (\<lambda>c. c \<noteq> []) (code info) = []"
    by (rule join_eq_Nil) simp
  then show ?thesis by (simp add: node_label_def Let_def)
qed

lemma add_block_node_new:
  assumes "fst kv \<notin> fst ` set (nodes g)"
  shows "add_block_node kv g = g\<lparr>nodes := nodes g @ [block_node kv]\<rparr>"
proof -
  from assms have "map_of (nodes g) (fst kv) = None" by (simp add: map_of_eq_None_iff)
  then show ?thesis
    by (simp add: add_block_node_def add_node_def block_node_def node_label_eq)
qed

lemma fold_add_block_node:
  assumes "distinct (map fst block_logs)" and "fst ` set block_logs \<inter> fst ` set (nodes g) = {}"
  shows "fold add_block_node block_logs g = g\<lparr>nodes := nodes g @ map block_node block_logs\<rparr>"
  using assms
proof (induction block_logs arbitrary: g)
  case Nil
  then show ?case by simp
next
  case (Cons kv rest)
  from Cons.prems(2) have new: "fst kv \<notin> fst ` set (nodes g)" by auto
  let ?g1 = "g\<lparr>nodes := nodes g @ [block_node kv]\<rparr>"
  have d: "distinct (map fst rest)" using Cons.prems(1) by simp
  have "fst ` set rest \<inter> fst ` set (nodes ?g1) = {}"
    using Cons.prems by (auto simp: block_node_def)
  from Cons.IH [OF d this] show ?case
    by (simp add: add_block_node_new [OF new])
qed

lemma grows_refl: "grows g g X"
  by (simp add: grows_def)

lemma grows_mono:
  assumes "grows g g' X" and "X \<subseteq> Y"
  shows "grows g g' Y"
proof -
  from assms(1) obtain extra where e: "nodes g' = nodes g @ extra"
    "\<forall>n \<in> set extra. snd n = [] \<and> fst n \<in> X"
    "distinct (map fst extra)" "fst ` set extra \<inter> fst ` set (nodes g) = {}"
    unfolding grows_def by (elim exE conjE)
  from e(2) assms(2) have "\<forall>n \<in> set extra. snd n = [] \<and> fst n \<in> Y" by auto
  with e(1,3,4) show ?thesis unfolding grows_def by (intro exI [of _ extra] conjI)
qed

lemma grows_trans:
  assumes "grows g g1 X" and "grows g1 g2 X"
  shows "grows g g2 X"
proof -
  from assms(1) obtain e1 where e1: "nodes g1 = nodes g @ e1" "\<forall>n \<in> set e1. snd n = [] \<and> fst n \<in> X"
    "distinct (map fst e1)" "fst ` set e1 \<inter> fst ` set (nodes g) = {}"
    unfolding grows_def by (elim exE conjE)
  from assms(2) obtain e2 where e2: "nodes g2 = nodes g1 @ e2" "\<forall>n \<in> set e2. snd n = [] \<and> fst n \<in> X"
    "distinct (map fst e2)" "fst ` set e2 \<inter> fst ` set (nodes g1) = {}"
    unfolding grows_def by (elim exE conjE)
  have a: "nodes g2 = nodes g @ (e1 @ e2)" using e1(1) e2(1) by simp
  have b: "\<forall>n \<in> set (e1 @ e2). snd n = [] \<and> fst n \<in> X" using e1(2) e2(2) by auto
  have c: "distinct (map fst (e1 @ e2))" using e1(3) e2(3) e2(4) e1(1) by auto
  have d: "fst ` set (e1 @ e2) \<inter> fst ` set (nodes g) = {}" using e1(4) e2(4) e1(1) by auto
  from a b c d show ?thesis unfolding grows_def by (intro exI [of _ "e1 @ e2"] conjI)
qed

lemma add_node_empty:
  "grows g (add_node n [] g) {n} \<and> edges (add_node n [] g) = edges g
     \<and> n \<in> fst ` set (nodes (add_node n [] g))"
proof (cases "map_of (nodes g) n")
  case None
  then have "n \<notin> fst ` set (nodes g)" by (simp add: map_of_eq_None_iff)
  with None show ?thesis by (simp add: add_node_def grows_def)
next
  case (Some old)
  then have "AList.update n old (nodes g) = nodes g" by (rule update_triv)
  with Some have "add_node n [] g = g" by (simp add: add_node_def)
  moreover from Some have "n \<in> fst ` set (nodes g)"
    by (metis map_of_eq_None_iff option.distinct(1))
  ultimately show ?thesis by (simp add: grows_refl)
qed

lemma add_edge_props:
  "grows g (add_edge u v g) {u, v}
     \<and> set (edges (add_edge u v g)) = insert (u, v) (set (edges g))
     \<and> (distinct (edges g) \<longrightarrow> distinct (edges (add_edge u v g)))"
proof -
  let ?g1 = "add_node u [] g"
  let ?g2 = "add_node v [] ?g1"
  have a1: "grows g ?g1 {u}" using add_node_empty [of g u] by simp
  have a2: "grows ?g1 ?g2 {v}" using add_node_empty [of ?g1 v] by simp
  have "grows g ?g1 {u, v}" by (rule grows_mono [OF a1]) simp
  moreover have "grows ?g1 ?g2 {u, v}" by (rule grows_mono [OF a2]) simp
  ultimately have g: "grows g ?g2 {u, v}" by (rule grows_trans)
  have e: "edges ?g2 = edges g" using add_node_empty [of g u] add_node_empty [of ?g1 v] by simp
  have n: "nodes (add_edge u v g) = nodes ?g2" by (simp add: add_edge_def Let_def)
  from g n have "grows g (add_edge u v g) {u, v}" by (simp add: grows_def)
  moreover have "set (edges (add_edge u v g)) = insert (u, v) (set (edges g))"
    using e by (auto simp: add_edge_def Let_def)
  moreover have "distinct (edges g) \<longrightarrow> distinct (edges (add_edge u v g))"
    using e by (auto simp: add_edge_def Let_def)
  ultimately show ?thesis by blast
qed

lemma fold_add_edge:
  "grows g (fold (add_edge u) ss g) (insert u (set ss))
     \<and> set (edges (fold (add_edge u) ss g)) = set (edges g) \<union> Pair u ` set ss
     \<and> (distinct (edges g) \<longrightarrow> distinct (edges (fold (add_edge u) ss g)))"
proof (induction ss arbitrary: g)
  case Nil
  then show ?case by (simp add: grows_refl)
next
  case (Cons s ss)
  let ?g1 = "add_edge u s g"
  note a = add_edge_props [of g u s]
  note b = Cons.IH [of ?g1]
  have a1: "grows g ?g1 {u, s}" using a by simp
  have b1: "grows ?g1 (fold (add_edge u) ss ?g1) (insert u (set ss))" using b by simp
  have "grows g ?g1 (insert u (set (s # ss)))" by (rule grows_mono [OF a1]) simp
  moreover have "grows ?g1 (fold (add_edge u) ss ?g1) (insert u (set (s # ss)))"
    by (rule grows_mono [OF b1]) auto
  ultimately have "grows g (fold (add_edge u) ss ?g1) (insert u (set (s # ss)))"
    by (rule grows_trans)
  then have "grows g (fold (add_edge u) (s # ss) g) (insert u (set (s # ss)))" by simp
  moreover have "set (edges (fold (add_edge u) (s # ss) g)) = set (edges g) \<union> Pair u ` set (s # ss)"
    using a b by auto
  moreover have "distinct (edges g) \<longrightarrow> distinct (edges (fold (add_edge u) (s # ss) g))"
    using a b by simp
  ultimately show ?case by blast
qed

lemma declared_edges_Cons:
  "declared_edges (kv # bs) =
     (case successors (snd kv) of None \<Rightarrow> [] | Some ss \<Rightarrow> map (Pair (fst kv)) ss) @ declared_edges bs"
  by (simp add: declared_edges_def)

lemma add_block_edges_props:
  "grows g (add_block_edges kv g) (fst ` set (kv # bs) \<union> snd ` set (declared_edges (kv # bs)))
     \<and> set (edges (add_block_edges kv g)) =
         set (edges g) \<union> set (case successors (snd kv) of None \<Rightarrow> [] | Some ss \<Rightarrow> map (Pair (fst kv)) ss)
     \<and> (distinct (edges g) \<longrightarrow> distinct (edges (add_block_edges kv g)))"
proof (cases "successors (snd kv)")
  case None
  then show ?thesis by (simp add: add_block_edges_def grows_refl)
next
  case (Some ss)
  note f = fold_add_edge [of g "fst kv" ss]
  from f have g1: "grows g (fold (add_edge (fst kv)) ss g) (insert (fst kv) (set ss))" by simp
  have sub: "insert (fst kv) (set ss) \<subseteq> fst ` set (kv # bs) \<union> snd ` set (declared_edges (kv # bs))"
  proof
    fix x assume "x \<in> insert (fst kv) (set ss)"
    then consider "x = fst kv" | "x \<in> set ss" by blast
    then show "x \<in> fst ` set (kv # bs) \<union> snd ` set (declared_edges (kv # bs))"
    proof cases
      case 1
      then show ?thesis by simp
    next
      case 2
      then have "(fst kv, x) \<in> set (declared_edges (kv # bs))"
        using Some by (simp add: declared_edges_Cons)
      then have "snd (fst kv, x) \<in> snd ` set (declared_edges (kv # bs))" by (rule imageI)
      then show ?thesis by simp
    qed
  qed
  from grows_mono [OF g1 sub] f Some show ?thesis
    by (simp add: add_block_edges_def)
qed

lemma fold_add_block_edges:
  "grows g (fold add_block_edges bs g) (fst ` set bs \<union> snd ` set (declared_edges bs))
     \<and> set (edges (fold add_block_edges bs g)) = set (edges g) \<union> set (declared_edges bs)
     \<and> (distinct (edges g) \<longrightarrow> distinct (edges (fold add_block_edges bs g)))"
proof (induction bs arbitrary: g)
  case Nil
  then show ?case by (simp add: grows_refl declared_edges_def)
next
  case (Cons kv bs)
  let ?g1 = "add_block_edges kv g"
  let ?X = "fst ` set (kv # bs) \<union> snd ` set (declared_edges (kv # bs))"
  note a = add_block_edges_props [of g kv bs]
  note b = Cons.IH [of ?g1]
  from a have a1: "grows g ?g1 ?X" by simp
  from b have b1: "grows ?g1 (fold add_block_edges bs ?g1) (fst ` set bs \<union> snd ` set (declared_edges bs))"
    by simp
  have "fst ` set bs \<union> snd ` set (declared_edges bs) \<subseteq> ?X"
    by (auto simp: declared_edges_Cons)
  from grows_mono [OF b1 this] have b2: "grows ?g1 (fold add_block_edges bs ?g1) ?X" .
  from grows_trans [OF a1 b2] have "grows g (fold add_block_edges (kv # bs) g) ?X" by simp
  moreover have "set (edges (fold add_block_edges (kv # bs) g)) = set (edges g) \<union> set (declared_edges (kv # bs))"
    using a b by (auto simp: declared_edges_Cons)
  moreover have "distinct (edges g) \<longrightarrow> distinct (edges (fold add_block_edges (kv # bs) g))"
    using a b by simp
  ultimately show ?case by (intro conjI)
qed

lemma fst_block_node: "map fst (map block_node bs) = map fst bs"
  by (simp add: block_node_def)

section \<open>The topology graph\<close>

text \<open>
  C8: for every block-log mapping (a dictionary, so the keys are distinct) the graph has,
  for every worker, exactly one node, labelled with the identifier and the joined
  non-empty code lines, or with the bare identifier; the node identifiers are pairwise
  different, and a node that is not the node of a worker has no attributes and is a
  declared successor that is not a worker of the mapping, so that there is none when every
  declared successor is a worker.  The edges are exactly the declared pairs of a worker
  and a successor, each once.  When no worker has the field \<open>successors\<close>, the graph has
  the nodes of the workers and no edge.
\<close>

theorem visualize_graph:
  assumes "distinct (map fst block_logs)"
  shows "\<exists>extra. nodes (visualize block_logs) = map block_node block_logs @ extra
           \<and> distinct (map fst (nodes (visualize block_logs)))
           \<and> (\<forall>n \<in> set extra. snd n = [] \<and> fst n \<notin> fst ` set block_logs
                  \<and> fst n \<in> snd ` set (declared_edges block_logs))
           \<and> set (edges (visualize block_logs)) = set (declared_edges block_logs)
           \<and> distinct (edges (visualize block_logs))
           \<and> (snd ` set (declared_edges block_logs) \<subseteq> fst ` set block_logs \<longrightarrow>
                  nodes (visualize block_logs) = map block_node block_logs)
           \<and> (list_all (\<lambda>kv. successors (snd kv) = None) block_logs \<longrightarrow>
                  visualize block_logs = \<lparr>nodes = map block_node block_logs, edges = []\<rparr>)"
proof -
  let ?g0 = "\<lparr>nodes = map block_node block_logs, edges = []\<rparr>"
  have g0: "fold add_block_node block_logs \<lparr>nodes = [], edges = []\<rparr> = ?g0"
    using fold_add_block_node [OF assms, of "\<lparr>nodes = [], edges = []\<rparr>"] by simp
  then have v: "visualize block_logs = fold add_block_edges block_logs ?g0"
    by (simp add: visualize_def)
  note f = fold_add_block_edges [of ?g0 block_logs]
  from f v have "grows ?g0 (visualize block_logs) (fst ` set block_logs \<union> snd ` set (declared_edges block_logs))"
    by simp
  then obtain extra where e: "nodes (visualize block_logs) = nodes ?g0 @ extra"
    "\<forall>n \<in> set extra. snd n = [] \<and> fst n \<in> fst ` set block_logs \<union> snd ` set (declared_edges block_logs)"
    "distinct (map fst extra)" "fst ` set extra \<inter> fst ` set (nodes ?g0) = {}"
    unfolding grows_def by (elim exE conjE)
  have "fst ` set (map block_node block_logs) = fst ` set block_logs"
    by (simp add: image_image block_node_def)
  then have keys: "fst ` set (nodes ?g0) = fst ` set block_logs" by simp
  have n: "nodes (visualize block_logs) = map block_node block_logs @ extra" using e(1) by simp
  have "map fst (nodes (visualize block_logs)) = map fst block_logs @ map fst extra"
    using n by (simp add: fst_block_node del: map_map)
  moreover have "set (map fst block_logs) \<inter> set (map fst extra) = {}"
    using e(4) keys by auto
  ultimately have d: "distinct (map fst (nodes (visualize block_logs)))"
    using assms e(3) by simp
  have x: "\<forall>n \<in> set extra. snd n = [] \<and> fst n \<notin> fst ` set block_logs
                  \<and> fst n \<in> snd ` set (declared_edges block_logs)"
  proof
    fix n assume n: "n \<in> set extra"
    with e(2) have a: "snd n = []"
      and b: "fst n \<in> fst ` set block_logs \<union> snd ` set (declared_edges block_logs)" by simp_all
    from n have "fst n \<in> fst ` set extra" by (rule imageI)
    with e(4) keys have c: "fst n \<notin> fst ` set block_logs" by auto
    with b have "fst n \<in> snd ` set (declared_edges block_logs)" by simp
    with a c show "snd n = [] \<and> fst n \<notin> fst ` set block_logs
                  \<and> fst n \<in> snd ` set (declared_edges block_logs)" by simp
  qed
  have ed: "set (edges (visualize block_logs)) = set (declared_edges block_logs)"
    using f v by simp
  have de: "distinct (edges (visualize block_logs))" using f v by simp
  have closed: "snd ` set (declared_edges block_logs) \<subseteq> fst ` set block_logs \<longrightarrow>
                  nodes (visualize block_logs) = map block_node block_logs"
  proof
    assume sub: "snd ` set (declared_edges block_logs) \<subseteq> fst ` set block_logs"
    have "extra = []"
    proof (cases extra)
      case Nil
      then show ?thesis .
    next
      case (Cons y ys)
      then have "y \<in> set extra" by simp
      with x have "fst y \<notin> fst ` set block_logs"
        and "fst y \<in> snd ` set (declared_edges block_logs)" by simp_all
      with sub show ?thesis by auto
    qed
    with n show "nodes (visualize block_logs) = map block_node block_logs" by simp
  qed
  have none: "list_all (\<lambda>kv. successors (snd kv) = None) block_logs \<longrightarrow>
                  visualize block_logs = ?g0"
  proof
    assume a: "list_all (\<lambda>kv. successors (snd kv) = None) block_logs"
    then have "declared_edges block_logs = []"
      by (induction block_logs) (simp_all add: declared_edges_def)
    with closed ed have "nodes (visualize block_logs) = map block_node block_logs"
      and "edges (visualize block_logs) = []" by simp_all
    then show "visualize block_logs = ?g0" by simp
  qed
  show ?thesis
    by (rule exI [of _ extra])
       (rule conjI [OF n conjI [OF d conjI [OF x conjI [OF ed conjI [OF de conjI [OF closed none]]]]]])
qed

theorem visualize_graph_witness:
  "distinct (map fst graph_logs)
   \<and> (\<exists>extra. nodes (visualize graph_logs) = map block_node graph_logs @ extra
           \<and> distinct (map fst (nodes (visualize graph_logs)))
           \<and> (\<forall>n \<in> set extra. snd n = [] \<and> fst n \<notin> fst ` set graph_logs
                  \<and> fst n \<in> snd ` set (declared_edges graph_logs))
           \<and> set (edges (visualize graph_logs)) = set (declared_edges graph_logs)
           \<and> distinct (edges (visualize graph_logs))
           \<and> (snd ` set (declared_edges graph_logs) \<subseteq> fst ` set graph_logs \<longrightarrow>
                  nodes (visualize graph_logs) = map block_node graph_logs)
           \<and> (list_all (\<lambda>kv. successors (snd kv) = None) graph_logs \<longrightarrow>
                  visualize graph_logs = \<lparr>nodes = map block_node graph_logs, edges = []\<rparr>))
   \<and> visualize graph_logs =
       \<lparr>nodes = [(''B0'', [(''shape'', ''box''), (''label'', ''B0:'' @ newline @ ''x = 1;'' @ newline @ ''y = 2;'')]),
                 (''B1'', [(''shape'', ''box''), (''label'', ''B1'')]),
                 (''B2'', [(''shape'', ''box''), (''label'', ''B2:'' @ newline @ ''z = 3;'')]),
                 (''B7'', [])],
        edges = [(''B0'', ''B1''), (''B0'', ''B2''), (''B2'', ''B0''), (''B2'', ''B7'')]\<rparr>
   \<and> visualize [(''B0'', \<lparr>code = [], predecessors = None, successors = None, messages = None\<rparr>)] =
       \<lparr>nodes = [(''B0'', [(''shape'', ''box''), (''label'', ''B0'')])], edges = []\<rparr>"
proof -
  have h: "distinct (map fst graph_logs)" by (simp add: graph_logs_def)
  have v: "visualize graph_logs =
       \<lparr>nodes = [(''B0'', [(''shape'', ''box''), (''label'', ''B0:'' @ newline @ ''x = 1;'' @ newline @ ''y = 2;'')]),
                 (''B1'', [(''shape'', ''box''), (''label'', ''B1'')]),
                 (''B2'', [(''shape'', ''box''), (''label'', ''B2:'' @ newline @ ''z = 3;'')]),
                 (''B7'', [])],
        edges = [(''B0'', ''B1''), (''B0'', ''B2''), (''B2'', ''B0''), (''B2'', ''B7'')]\<rparr>"
    by code_simp
  have o: "visualize [(''B0'', \<lparr>code = [], predecessors = None, successors = None, messages = None\<rparr>)] =
       \<lparr>nodes = [(''B0'', [(''shape'', ''box''), (''label'', ''B0'')])], edges = []\<rparr>"
    by code_simp
  note c = visualize_graph [OF h]
  show ?thesis
    by (rule conjI [OF h conjI [OF c conjI [OF v o]]])
qed

end
